theory Spec2Isabelle
  imports Complex_Main "HOL-Library.AList" "HOL-Library.Sublist"
begin

section \<open>Python values and exceptions\<close>

text \<open>
  A value produced by \<^verbatim>\<open>json.loads\<close>.  A Python \<^verbatim>\<open>dict\<close> keeps insertion order and has
  one entry per key, so an object is an association list read with \<^const>\<open>map_of\<close>.  No
  arithmetic is done on numbers by the code under study; a float is carried as its literal.
  A Python \<^verbatim>\<open>str\<close> is a \<^typ>\<open>string\<close>, the list of its code points (those below 256).
\<close>

datatype json =
    JNull
  | JBool bool
  | JInt int
  | JFloat string
  | JStr string
  | JArr "json list"
  | JObj "(string \<times> json) list"

text \<open>
  The exceptions that the modelled code raises or lets through.  \<^verbatim>\<open>RuntimeError(x)\<close> carries
  its argument \<open>x\<close>, which in \<^verbatim>\<open>call_tool\<close> is the JSON value found under \<^verbatim>\<open>"error"\<close>.
\<close>

datatype exn =
    RuntimeError json
  | JSONDecodeError string
  | TypeError string
  | ValueError string
  | OSError string
  | AttributeError string
  | ZeroDivisionError
  | OverflowError string
  | TimeoutExpired
  | APIError string

section \<open>Tag extraction (evaluation.py, \<^verbatim>\<open>extract_xml_content\<close>)\<close>

text \<open>
  \<^verbatim>\<open>pattern = rf"<{tag}>(.*?)</{tag}>"\<close> interpolates the tag into a regular expression
  without escaping it.  A tag name without regex metacharacters stands for itself: the pattern
  is then the opening delimiter, a lazy group and the closing delimiter.  What \<^verbatim>\<open>re\<close> makes
  of a tag name with a metacharacter is not modelled: for such a name the embedding gives no
  result (\<open>None\<close>) rather than a wrong one.
\<close>

definition regex_special :: "char set" where
  "regex_special = insert (CHR 0x5C) (set ''.^$*+?{}[]|()'')"

definition plain_tag :: "string \<Rightarrow> bool" where
  "plain_tag tag = (set tag \<inter> regex_special = {})"

definition open_tag :: "string \<Rightarrow> string" where
  "open_tag tag = ''<'' @ tag @ ''>''"

definition close_tag :: "string \<Rightarrow> string" where
  "close_tag tag = ''</'' @ tag @ ''>''"

text \<open>
  The lazy group \<^verbatim>\<open>(.*?)\<close> followed by the closing delimiter \<open>cl\<close>: the group takes as few
  characters as possible (with \<^verbatim>\<open>re.DOTALL\<close> it takes any character).  The result is the
  group and the text left after the closing delimiter.
\<close>

fun lazy_group :: "string \<Rightarrow> string \<Rightarrow> (string \<times> string) option" where
  "lazy_group cl [] = (if prefix cl [] then Some ([], []) else None)"
| "lazy_group cl (c # cs) =
     (if prefix cl (c # cs) then Some ([], drop (length cl) (c # cs))
      else map_option (\<lambda>(g, r). (c # g, r)) (lazy_group cl cs))"

text \<open>
  The matches of the pattern of a plain tag, as \<^verbatim>\<open>re.findall\<close> reports them: the scan goes
  from left to right; a match starts at an opening delimiter that a closing delimiter
  follows and ends with the first such closing delimiter; the scan goes on after the match,
  so matches do not overlap.  Each match is reported as the content of its one group.
\<close>

function tag_matches :: "string \<Rightarrow> string \<Rightarrow> string list" where
  "tag_matches tag [] = []"
| "tag_matches tag (c # cs) =
     (if prefix (open_tag tag) (c # cs)
      then (case lazy_group (close_tag tag) (drop (length (open_tag tag)) (c # cs)) of
              Some (g, rest) \<Rightarrow> g # tag_matches tag rest
            | None \<Rightarrow> tag_matches tag cs)
      else tag_matches tag cs)"
  by pat_completeness auto
termination
proof (relation "measure (\<lambda>(tag, s). length s)")
  fix tag :: string and c :: char and cs :: string and x2 :: "string \<times> string"
    and g rest :: string
  assume "lazy_group (close_tag tag) (drop (length (open_tag tag)) (c # cs)) = Some x2"
    and "(g, rest) = x2"
  moreover have "lazy_group cl s = Some (g', r) \<Longrightarrow> length r \<le> length s" for cl s g' r
    by (induction s arbitrary: g' r) (auto split: if_splits)
  ultimately have "length rest \<le> length (drop (length (open_tag tag)) (c # cs))"
    by metis
  then show "((tag, rest), tag, c # cs) \<in> measure (\<lambda>(tag, s). length s)"
    by (simp add: open_tag_def)
qed simp_all

text \<open>\<^verbatim>\<open>re.findall(pattern, text, re.DOTALL)\<close> for the pattern built from the tag.\<close>

definition re_findall :: "string \<Rightarrow> string \<Rightarrow> string list option" where
  "re_findall tag text = (if plain_tag tag then Some (tag_matches tag text) else None)"

text \<open>
  \<^verbatim>\<open>str.isspace\<close> on the code points below 256, and \<^verbatim>\<open>str.strip()\<close>.
\<close>

definition py_isspace :: "char \<Rightarrow> bool" where
  "py_isspace c = (of_char c \<in> {9, 10, 11, 12, 13, 28, 29, 30, 31, 32, 133, 160 :: nat})"

definition strip :: "string \<Rightarrow> string" where
  "strip s = rev (dropWhile py_isspace (rev (dropWhile py_isspace s)))"

text \<open>
  \<^verbatim>\<open>return matches[-1].strip() if matches else None\<close>.  The outer \<open>None\<close> is that of
  \<^const>\<open>re_findall\<close>: no result in the embedding.
\<close>

definition extract_xml_content :: "string \<Rightarrow> string \<Rightarrow> string option option" where
  "extract_xml_content text tag =
     (case re_findall tag text of
        None \<Rightarrow> None
      | Some matches \<Rightarrow> Some (if matches \<noteq> [] then Some (strip (last matches)) else None))"

section \<open>The agent loop (evaluation.py, \<^verbatim>\<open>agent_loop\<close>)\<close>

text \<open>
  A content block of an engine response: a text block (the only kind with a \<^verbatim>\<open>text\<close>
  attribute), a tool-use block with its identifier, tool name and input, or a block of
  another type.
\<close>

datatype block =
    TextBlock string
  | ToolUseBlock string string json
  | OtherBlock string

record response =
  stop_reason :: string
  content :: "block list"

datatype msg_content =
    Text string
  | Blocks "block list"
  | ToolResult string string

datatype message = Message string msg_content

record tool_metric =
  count :: int
  durations :: "real list"

text \<open>
  What the loop calls and does not define: the reasoning engine
  (\<^verbatim>\<open>client.messages.create\<close>, a function of the conversation sent to it), the tool caller
  (an object with state \<open>'tc\<close>), the clock (\<open>time_time n\<close> is the \<open>n\<close>-th reading of
  \<^verbatim>\<open>time.time()\<close>) and the library functions \<^verbatim>\<open>json.dumps\<close>, \<^verbatim>\<open>str\<close> and
  \<^verbatim>\<open>traceback.format_exc\<close>.  Each one that can raise returns a sum.
\<close>

record 'tc collaborators =
  engine :: "message list \<Rightarrow> exn + response"
  call_tool :: "'tc \<Rightarrow> string \<Rightarrow> json \<Rightarrow> (exn + json) \<times> 'tc"
  time_time :: "nat \<Rightarrow> real"
  json_dumps :: "json \<Rightarrow> exn + string"
  py_str :: "json \<Rightarrow> string"
  exn_str :: "exn \<Rightarrow> string"
  format_exc :: "exn \<Rightarrow> string"

record 'tc loop_state =
  messages :: "message list"
  response :: response
  tool_metrics :: "(string \<times> tool_metric) list"
  tool_caller :: 'tc
  ticks :: nat

text \<open>\<^verbatim>\<open>next(block for block in response.content if block.type == "tool_use")\<close>\<close>

fun first_tool_use :: "block list \<Rightarrow> (string \<times> string \<times> json) option" where
  "first_tool_use [] = None"
| "first_tool_use (ToolUseBlock i n a # bs) = Some (i, n, a)"
| "first_tool_use (b # bs) = first_tool_use bs"

text \<open>\<^verbatim>\<open>next((block.text for block in response.content if hasattr(block, "text")), None)\<close>\<close>

fun first_text :: "block list \<Rightarrow> string option" where
  "first_text [] = None"
| "first_text (TextBlock t # bs) = Some t"
| "first_text (b # bs) = first_text bs"

fun is_dict_or_list :: "json \<Rightarrow> bool" where
  "is_dict_or_list (JObj kvs) = True"
| "is_dict_or_list (JArr vs) = True"
| "is_dict_or_list v = False"

text \<open>The \<^verbatim>\<open>except Exception as e\<close> branch: the failure message followed by the stack trace.\<close>

definition error_response :: "'tc collaborators \<Rightarrow> string \<Rightarrow> exn \<Rightarrow> string" where
  "error_response E tool_name e =
     ''Error executing tool '' @ tool_name @ '': '' @ exn_str E e @ [CHR 0x0A] @ format_exc E e"

text \<open>
  The body of the \<^verbatim>\<open>try\<close>: the call, then the serialisation of its result.  Either can
  raise, and both are caught.
\<close>

definition tool_response_of :: "'tc collaborators \<Rightarrow> string \<Rightarrow> exn + json \<Rightarrow> string" where
  "tool_response_of E tool_name res =
     (case res of
        Inl e \<Rightarrow> error_response E tool_name e
      | Inr tool_result \<Rightarrow>
          (if is_dict_or_list tool_result
           then (case json_dumps E tool_result of
                   Inl e \<Rightarrow> error_response E tool_name e
                 | Inr s \<Rightarrow> s)
           else py_str E tool_result))"

text \<open>
  The three statements that update \<^verbatim>\<open>tool_metrics\<close>.  A Python dict keeps insertion order:
  a new key goes to the end, an existing one is updated in place.
\<close>

definition record_call :: "(string \<times> tool_metric) list \<Rightarrow> string \<Rightarrow> real \<Rightarrow> (string \<times> tool_metric) list" where
  "record_call tm tool_name tool_duration =
     (let tm1 = (if map_of tm tool_name = None
                 then tm @ [(tool_name, \<lparr>count = 0, durations = []\<rparr>)] else tm);
          tm2 = AList.map_entry tool_name (\<lambda>m. m\<lparr>count := count m + 1\<rparr>) tm1
      in AList.map_entry tool_name (\<lambda>m. m\<lparr>durations := durations m @ [tool_duration]\<rparr>) tm2)"

text \<open>
  One iteration of \<^verbatim>\<open>while response.stop_reason == "tool_use"\<close>.  When the response has no
  tool-use block, \<^verbatim>\<open>next\<close> raises \<^verbatim>\<open>StopIteration\<close>, which a coroutine turns into a
  \<^verbatim>\<open>RuntimeError\<close>.
\<close>

definition loop_body :: "'tc collaborators \<Rightarrow> 'tc loop_state \<Rightarrow> exn + 'tc loop_state" where
  "loop_body E st =
     (case first_tool_use (content (response st)) of
        None \<Rightarrow> Inl (RuntimeError (JStr ''coroutine raised StopIteration''))
      | Some (tool_use_id, tool_name, tool_input) \<Rightarrow>
          (let tool_start_ts = time_time E (ticks st);
               (res, tc') = call_tool E (tool_caller st) tool_name tool_input;
               tool_response = tool_response_of E tool_name res;
               tool_duration = time_time E (ticks st + 1) - tool_start_ts;
               tm' = record_call (tool_metrics st) tool_name tool_duration;
               msgs' = messages st @ [Message ''user'' (ToolResult tool_use_id tool_response)]
           in case engine E msgs' of
                Inl e \<Rightarrow> Inl e
              | Inr r \<Rightarrow>
                  Inr \<lparr>messages = msgs' @ [Message ''assistant'' (Blocks (content r))],
                       response = r, tool_metrics = tm', tool_caller = tc',
                       ticks = ticks st + 2\<rparr>))"

text \<open>
  The loop has no bound on its turns.  \<open>while_loop n\<close> runs at most \<open>n\<close> iterations and is
  \<open>None\<close> when the engine still asks for a tool after them.
\<close>

fun while_loop :: "nat \<Rightarrow> 'tc collaborators \<Rightarrow> 'tc loop_state \<Rightarrow> (exn + 'tc loop_state) option" where
  "while_loop 0 E st =
     (if stop_reason (response st) = ''tool_use'' then None else Some (Inr st))"
| "while_loop (Suc n) E st =
     (if stop_reason (response st) = ''tool_use''
      then (case loop_body E st of
              Inl e \<Rightarrow> Some (Inl e)
            | Inr st' \<Rightarrow> while_loop n E st')
      else Some (Inr st))"

text \<open>The statements before the loop: the first engine call.\<close>

definition first_turn :: "'tc collaborators \<Rightarrow> string \<Rightarrow> 'tc \<Rightarrow> nat \<Rightarrow> exn + 'tc loop_state" where
  "first_turn E question tc t =
     (let msgs = [Message ''user'' (Text question)]
      in case engine E msgs of
           Inl e \<Rightarrow> Inl e
         | Inr r \<Rightarrow>
             Inr \<lparr>messages = msgs @ [Message ''assistant'' (Blocks (content r))],
                  response = r, tool_metrics = [], tool_caller = tc, ticks = t\<rparr>)"

text \<open>
  \<^verbatim>\<open>agent_loop\<close> returns \<^verbatim>\<open>(response_text, tool_metrics)\<close>; the model returns the final state
  as well, which holds the tool caller and the clock as the loop left them.
\<close>

definition agent_loop ::
  "nat \<Rightarrow> 'tc collaborators \<Rightarrow> string \<Rightarrow> 'tc \<Rightarrow> nat
     \<Rightarrow> (exn + (string option \<times> (string \<times> tool_metric) list \<times> 'tc loop_state)) option" where
  "agent_loop fuel E question tc t =
     (case first_turn E question tc t of
        Inl e \<Rightarrow> Some (Inl e)
      | Inr st \<Rightarrow>
          (case while_loop fuel E st of
             None \<Rightarrow> None
           | Some (Inl e) \<Rightarrow> Some (Inl e)
           | Some (Inr st') \<Rightarrow>
               Some (Inr (first_text (content (response st')), tool_metrics st', st'))))"

section \<open>Scoring one task (evaluation.py, \<^verbatim>\<open>evaluate_single_task\<close>)\<close>

record qa_pair =
  question :: string
  answer :: string

record task_result =
  tr_question :: string
  expected :: string
  actual :: "string option"
  score :: int
  total_duration :: real
  tool_calls :: "(string \<times> tool_metric) list"
  num_tool_calls :: int
  summary :: "string option"

text \<open>\<^verbatim>\<open>int(response_value == qa_pair["answer"]) if response_value else 0\<close>\<close>

definition score_of :: "string option \<Rightarrow> string \<Rightarrow> int" where
  "score_of response_value ans =
     (case response_value of
        None \<Rightarrow> 0
      | Some v \<Rightarrow> if v \<noteq> [] then (if v = ans then 1 else 0) else 0)"

text \<open>\<^verbatim>\<open>sum(len(metrics["durations"]) for metrics in tool_metrics.values())\<close>\<close>

definition count_tool_calls :: "(string \<times> tool_metric) list \<Rightarrow> int" where
  "count_tool_calls tm = sum_list (map (\<lambda>(name, m). int (length (durations m))) tm)"

text \<open>
  \<^verbatim>\<open>re.findall\<close> raises \<^verbatim>\<open>TypeError\<close> when \<^verbatim>\<open>agent_loop\<close> returned \<^verbatim>\<open>None\<close> as the text
  (a final response without a text block).  The result \<open>None\<close> is that of the agent loop (the
  engine still asks for a tool after the turns allowed) or of the extraction; both tags are
  plain, so the extraction has a result.
\<close>

definition evaluate_single_task ::
  "nat \<Rightarrow> 'tc collaborators \<Rightarrow> qa_pair \<Rightarrow> 'tc \<Rightarrow> nat \<Rightarrow> (exn + task_result \<times> 'tc \<times> nat) option" where
  "evaluate_single_task fuel E qa tc t =
     (let start_time = time_time E t
      in case agent_loop fuel E (question qa) tc (t + 1) of
           None \<Rightarrow> None
         | Some (Inl e) \<Rightarrow> Some (Inl e)
         | Some (Inr (None, tm, st)) \<Rightarrow>
             Some (Inl (TypeError ''expected string or bytes-like object''))
         | Some (Inr (Some text, tm, st)) \<Rightarrow>
             (case extract_xml_content text ''response'' of
                None \<Rightarrow> None
              | Some response_value \<Rightarrow>
                  (case extract_xml_content text ''summary'' of
                     None \<Rightarrow> None
                   | Some summ \<Rightarrow>
                       (let duration_seconds = time_time E (ticks st) - start_time
                        in Some (Inr (\<lparr>tr_question = question qa,
                                        expected = answer qa,
                                        actual = response_value,
                                        score = score_of response_value (answer qa),
                                        total_duration = duration_seconds,
                                        tool_calls = tm,
                                        num_tool_calls = count_tool_calls tm,
                                        summary = summ\<rparr>,
                                      tool_caller st, ticks st + 1))))))"

section \<open>Binary64 arithmetic\<close>

text \<open>
  A Python float is a binary64 number.  A finite float is modelled by its value, a real
  number (the two zeros are one value); the two infinities are values of their own.  No
  operation below, on the operands it is given, yields a NaN.
\<close>

datatype pyfloat = Finite real | PosInf | NegInf

text \<open>The exponent of a positive number: \<open>2 powi ilog2 x \<le> x < 2 powi (ilog2 x + 1)\<close>.\<close>

function ilog2_up :: "real \<Rightarrow> int" where
  "ilog2_up x = (if x < 2 then 0 else ilog2_up (x / 2) + 1)"
  by pat_completeness auto
termination
proof (relation "measure (\<lambda>x. nat \<lfloor>x\<rfloor>)")
  fix x :: real
  assume "\<not> x < 2"
  then have "x / 2 \<le> x - 1" by simp
  then have "\<lfloor>x / 2\<rfloor> \<le> \<lfloor>x - 1\<rfloor>" by (rule floor_mono)
  moreover have "\<lfloor>x - 1\<rfloor> = \<lfloor>x\<rfloor> - 1" by simp
  moreover from \<open>\<not> x < 2\<close> have "2 \<le> \<lfloor>x\<rfloor>" by (simp add: le_floor_iff)
  ultimately show "(x / 2, x) \<in> measure (\<lambda>x. nat \<lfloor>x\<rfloor>)" by simp
qed simp

function ilog2_down :: "real \<Rightarrow> int" where
  "ilog2_down x = (if x \<le> 0 \<or> 1 \<le> x then 0 else ilog2_down (x * 2) - 1)"
  by pat_completeness auto
termination
proof (relation "measure (\<lambda>x. nat \<lfloor>1 / x\<rfloor>)")
  fix x :: real
  assume "\<not> (x \<le> 0 \<or> 1 \<le> x)"
  then have x: "0 < x" "x < 1" by simp_all
  then have y: "1 < 1 / x" by simp
  have "1 / (x * 2) < of_int \<lfloor>1 / x\<rfloor>"
  proof (cases "2 \<le> 1 / x")
    case True
    then have "1 / (x * 2) \<le> 1 / x - 1" by (simp add: field_simps)
    also have "\<dots> < of_int \<lfloor>1 / x\<rfloor>" by linarith
    finally show ?thesis .
  next
    case False
    then have "1 / (x * 2) < 1" using x by (simp add: field_simps)
    moreover from y have "1 \<le> \<lfloor>1 / x\<rfloor>" by (simp add: le_floor_iff)
    then have "(1::real) \<le> of_int \<lfloor>1 / x\<rfloor>" by linarith
    ultimately show ?thesis by linarith
  qed
  then have "\<lfloor>1 / (x * 2)\<rfloor> < \<lfloor>1 / x\<rfloor>" by (simp add: floor_less_iff)
  moreover from y have "0 < \<lfloor>1 / x\<rfloor>" by (simp add: less_floor_iff)
  ultimately show "(x * 2, x) \<in> measure (\<lambda>x. nat \<lfloor>1 / x\<rfloor>)" by simp
qed simp

declare ilog2_up.simps [simp del] ilog2_down.simps [simp del]

definition ilog2 :: "real \<Rightarrow> int" where
  "ilog2 x = (if 1 \<le> x then ilog2_up x else ilog2_down x)"

text \<open>The nearest integer, the even one of the two when they are equally near.\<close>

definition round_half_even :: "real \<Rightarrow> int" where
  "round_half_even x =
     (let f = \<lfloor>x\<rfloor>; d = x - of_int f
      in if d < 1 / 2 then f else if 1 / 2 < d then f + 1 else if even f then f else f + 1)"

text \<open>
  Rounding to the nearest binary64 number, ties to even, before the range is looked at: a
  number of exponent \<open>e\<close> is rounded to a multiple of \<open>2 powi (e - 52)\<close> (53 significant
  bits), and to a multiple of \<open>2 powi (- 1074)\<close> in the subnormal range.
\<close>

definition round64 :: "real \<Rightarrow> real" where
  "round64 x =
     (if x = 0 then 0
      else let k = max (ilog2 \<bar>x\<bar> - 52) (- 1074)
           in sgn x * (of_int (round_half_even (\<bar>x\<bar> / 2 powi k)) * 2 powi k))"

text \<open>
  The float result of an operation whose exact result is \<open>x\<close>: the rounded value, an infinity
  when that is beyond the largest finite float.
\<close>

definition to_float :: "real \<Rightarrow> pyfloat" where
  "to_float x =
     (let r = round64 x
      in if 2 ^ 1024 \<le> r then PosInf else if r \<le> - (2 ^ 1024) then NegInf else Finite r)"

text \<open>
  \<^verbatim>\<open>a / b\<close> on two \<^verbatim>\<open>int\<close>: the correctly rounded quotient; it raises on a zero divisor and
  when the quotient is too large for a float.
\<close>

definition int_true_divide :: "int \<Rightarrow> int \<Rightarrow> exn + real" where
  "int_true_divide a b =
     (if b = 0 then Inl ZeroDivisionError
      else case to_float (of_int a / of_int b) of
             Finite r \<Rightarrow> Inr r
           | _ \<Rightarrow> Inl (OverflowError ''integer division result too large for a float''))"

text \<open>The conversion of an \<^verbatim>\<open>int\<close> operand of a float operation.\<close>

definition int_to_float :: "int \<Rightarrow> exn + real" where
  "int_to_float n =
     (case to_float (of_int n) of
        Finite r \<Rightarrow> Inr r
      | _ \<Rightarrow> Inl (OverflowError ''int too large to convert to float''))"

text \<open>\<^verbatim>\<open>a * b\<close> on two finite floats: it does not raise.\<close>

definition float_mul :: "real \<Rightarrow> real \<Rightarrow> pyfloat" where
  "float_mul a b = to_float (a * b)"

text \<open>\<^verbatim>\<open>a / b\<close> on a float and a finite float: it raises on a zero divisor only.\<close>

definition float_true_divide :: "pyfloat \<Rightarrow> real \<Rightarrow> exn + pyfloat" where
  "float_true_divide a b =
     (if b = 0 then Inl ZeroDivisionError
      else Inr (case a of
                  Finite x \<Rightarrow> to_float (x / b)
                | PosInf \<Rightarrow> if 0 < b then PosInf else NegInf
                | NegInf \<Rightarrow> if 0 < b then NegInf else PosInf))"

section \<open>Run-level statistics (evaluation.py, \<^verbatim>\<open>run_evaluation\<close>)\<close>

record run_stats =
  correct :: int
  accuracy :: pyfloat
  average_duration_s :: pyfloat
  average_tool_calls :: pyfloat
  total_tool_calls :: int

text \<open>
  The five assignments after the task loop.  \<^verbatim>\<open>x / len(results) if results else 0\<close> divides
  only when the list is not empty; the \<^verbatim>\<open>0\<close> of the other branch is the number zero.  The
  scores and the numbers of tool calls are \<^verbatim>\<open>int\<close>, so their sums are exact and their
  quotients by the length are \<^verbatim>\<open>int / int\<close>; in \<^verbatim>\<open>(correct / len(results)) * 100\<close> the quotient
  is a float and \<^verbatim>\<open>100\<close> converts to the float 100.  The durations are floats: their \<^verbatim>\<open>sum\<close>
  is a float, whose rounding depends on the Python version (from 3.12 on the built-in sum of
  floats is compensated), so it is the parameter \<open>float_sum\<close>; the length is converted to a
  float for the division.
\<close>

definition run_evaluation_stats ::
  "(real list \<Rightarrow> pyfloat) \<Rightarrow> task_result list \<Rightarrow> exn + run_stats" where
  "run_evaluation_stats float_sum results =
     (let n = int (length results);
          corr = sum_list (map score results);
          acc = (if results \<noteq> []
                 then (case int_true_divide corr n of
                         Inl e \<Rightarrow> Inl e | Inr q \<Rightarrow> Inr (float_mul q 100))
                 else Inr (Finite 0));
          avg_d = (if results \<noteq> []
                   then (case int_to_float n of
                           Inl e \<Rightarrow> Inl e
                         | Inr d \<Rightarrow> float_true_divide (float_sum (map total_duration results)) d)
                   else Inr (Finite 0));
          avg_c = (if results \<noteq> []
                   then (case int_true_divide (sum_list (map num_tool_calls results)) n of
                           Inl e \<Rightarrow> Inl e | Inr q \<Rightarrow> Inr (Finite q))
                   else Inr (Finite 0));
          total = sum_list (map num_tool_calls results)
      in case acc of
           Inl e \<Rightarrow> Inl e
         | Inr a \<Rightarrow>
             (case avg_d of
                Inl e \<Rightarrow> Inl e
              | Inr d \<Rightarrow>
                  (case avg_c of
                     Inl e \<Rightarrow> Inl e
                   | Inr c \<Rightarrow>
                       Inr \<lparr>correct = corr, accuracy = a, average_duration_s = d,
                            average_tool_calls = c, total_tool_calls = total\<rparr>)))"

text \<open>
  For the statements about extraction: a text that holds an opening delimiter followed,
  later, by a closing one.
\<close>

definition occurs :: "string \<Rightarrow> string \<Rightarrow> bool" where
  "occurs tag s = (\<exists>pre c post. s = pre @ open_tag tag @ c @ close_tag tag @ post)"

section \<open>Child processes\<close>

text \<open>
  The operating system as the code sees it through \<^verbatim>\<open>subprocess.Popen\<close>.  A child is known
  by its position in \<open>procs\<close>.  What a child does is not defined by this repository: \<open>reply\<close>
  gives the line it writes after the request lines it has read so far (the empty string is
  end of file) and \<open>term_delay\<close> the seconds it takes to exit after \<^verbatim>\<open>SIGTERM\<close> (\<open>None\<close>
  when it never does).  \<open>program\<close> tells which command lines can be started, and as what.
\<close>

datatype signal = SIGTERM | SIGKILL

record behaviour =
  reply :: "string list \<Rightarrow> string"
  term_delay :: "real option"

record proc =
  argv :: "string list"
  penv :: "string \<rightharpoonup> string"
  cwd :: "string option"
  alive :: bool
  stdin_log :: "string list"
  signals :: "signal list"
  beh :: behaviour

record world =
  procs :: "proc list"
  os_environ :: "string \<rightharpoonup> string"
  program :: "string list \<Rightarrow> (string \<rightharpoonup> string) \<Rightarrow> string option \<Rightarrow> behaviour option"

definition update_proc :: "world \<Rightarrow> nat \<Rightarrow> (proc \<Rightarrow> proc) \<Rightarrow> world" where
  "update_proc w pid f = w\<lparr>procs := (procs w)[pid := f (procs w ! pid)]\<rparr>"

text \<open>\<^verbatim>\<open>subprocess.Popen(argv, stdin=PIPE, stdout=PIPE, stderr=PIPE, text=True, env=e, cwd=d)\<close>\<close>

definition Popen ::
  "world \<Rightarrow> string list \<Rightarrow> (string \<rightharpoonup> string) \<Rightarrow> string option \<Rightarrow> (exn + nat) \<times> world" where
  "Popen w a e d =
     (case program w a e d of
        None \<Rightarrow> (Inl (OSError ''cannot start the process''), w)
      | Some b \<Rightarrow>
          (Inr (length (procs w)),
           w\<lparr>procs := procs w @
                [\<lparr>argv = a, penv = e, cwd = d, alive = True, stdin_log = [],
                  signals = [], beh = b\<rparr>]\<rparr>))"

text \<open>\<^verbatim>\<open>process.poll() is None\<close>: the child has not exited.\<close>

definition running :: "world \<Rightarrow> nat \<Rightarrow> bool" where
  "running w pid = (pid < length (procs w) \<and> alive (procs w ! pid))"

text \<open>\<^verbatim>\<open>process.stdin.write(line); process.stdin.flush()\<close>\<close>

definition stdin_write :: "world \<Rightarrow> nat \<Rightarrow> string \<Rightarrow> (exn + unit) \<times> world" where
  "stdin_write w pid line =
     (if running w pid
      then (Inr (), update_proc w pid (\<lambda>p. p\<lparr>stdin_log := stdin_log p @ [line]\<rparr>))
      else (Inl (OSError ''Broken pipe''), w))"

text \<open>\<^verbatim>\<open>process.stdout.readline()\<close>\<close>

definition stdout_readline :: "world \<Rightarrow> nat \<Rightarrow> string" where
  "stdout_readline w pid =
     (if running w pid then reply (beh (procs w ! pid)) (stdin_log (procs w ! pid)) else [])"

text \<open>\<^verbatim>\<open>process.terminate()\<close> and \<^verbatim>\<open>process.kill()\<close>: no signal is sent to a child that has exited.\<close>

definition send_signal :: "world \<Rightarrow> nat \<Rightarrow> signal \<Rightarrow> world" where
  "send_signal w pid sig =
     (if running w pid then update_proc w pid (\<lambda>p. p\<lparr>signals := signals p @ [sig]\<rparr>) else w)"

definition terminate :: "world \<Rightarrow> nat \<Rightarrow> world" where
  "terminate w pid = send_signal w pid SIGTERM"

definition kill :: "world \<Rightarrow> nat \<Rightarrow> world" where
  "kill w pid = send_signal w pid SIGKILL"

text \<open>
  \<^verbatim>\<open>process.wait(timeout)\<close>.  A killed child exits; a child sent \<^verbatim>\<open>SIGTERM\<close> exits after its
  \<open>term_delay\<close>.  With a timeout the call raises \<^verbatim>\<open>TimeoutExpired\<close> when the child has not
  exited in time; without one it blocks for ever on a child that never exits, which is the
  result \<open>None\<close>.
\<close>

definition wait :: "world \<Rightarrow> nat \<Rightarrow> real option \<Rightarrow> ((exn + unit) \<times> world) option" where
  "wait w pid timeout =
     (if \<not> running w pid then Some (Inr (), w)
      else
        (let p = procs w ! pid;
             exited = update_proc w pid (\<lambda>p. p\<lparr>alive := False\<rparr>);
             delay = (if SIGKILL \<in> set (signals p) then Some 0
                      else if SIGTERM \<in> set (signals p) then term_delay (beh p)
                      else None)
         in case timeout of
              None \<Rightarrow> (case delay of None \<Rightarrow> None | Some d \<Rightarrow> Some (Inr (), exited))
            | Some t \<Rightarrow>
                (case delay of
                   None \<Rightarrow> Some (Inl TimeoutExpired, w)
                 | Some d \<Rightarrow> if d \<le> t then Some (Inr (), exited)
                             else Some (Inl TimeoutExpired, w))))"

text \<open>
  The exchange that every request method spells out: serialise the request, write it with a
  newline, flush, read one line, parse it.
\<close>

definition exchange ::
  "(json \<Rightarrow> exn + string) \<Rightarrow> (string \<Rightarrow> exn + json) \<Rightarrow> world \<Rightarrow> nat \<Rightarrow> json
     \<Rightarrow> (exn + json) \<times> world" where
  "exchange dumps loads w pid request =
     (case dumps request of
        Inl e \<Rightarrow> (Inl e, w)
      | Inr s \<Rightarrow>
          (case stdin_write w pid (s @ [CHR 0x0A]) of
             (Inl e, w') \<Rightarrow> (Inl e, w')
           | (Inr u, w') \<Rightarrow> (loads (stdout_readline w' pid), w')))"

definition list_tools_request :: json where
  "list_tools_request = JObj [(''action'', JStr ''list_tools'')]"

definition call_tool_request :: "string \<Rightarrow> json \<Rightarrow> json" where
  "call_tool_request tool_name arguments = JObj [(''tool'', JStr tool_name), (''args'', arguments)]"

text \<open>
  \<^verbatim>\<open>if isinstance(result, dict) and "error" in result: raise RuntimeError(result["error"])\<close>,
  then \<^verbatim>\<open>return result\<close>.
\<close>

definition raise_on_error :: "json \<Rightarrow> exn + json" where
  "raise_on_error result =
     (case result of
        JObj kvs \<Rightarrow> (case map_of kvs ''error'' of
                       Some v \<Rightarrow> Inl (RuntimeError v)
                     | None \<Rightarrow> Inr result)
      | _ \<Rightarrow> Inr result)"

text \<open>
  The body shared by every \<^verbatim>\<open>stop\<close>: the \<^verbatim>\<open>if\<close> statement before \<^verbatim>\<open>self._process = None\<close>.
  Only \<^verbatim>\<open>TimeoutExpired\<close> is caught.
\<close>

definition stop_process :: "nat option \<Rightarrow> world \<Rightarrow> ((exn + unit) \<times> world) option" where
  "stop_process handle w =
     (case handle of
        None \<Rightarrow> Some (Inr (), w)
      | Some pid \<Rightarrow>
          if running w pid
          then (case wait (terminate w pid) pid (Some 5) of
                  None \<Rightarrow> None
                | Some (Inr u, w') \<Rightarrow> Some (Inr (), w')
                | Some (Inl e, w') \<Rightarrow>
                    if e = TimeoutExpired then wait (kill w' pid) pid None
                    else Some (Inl e, w'))
          else Some (Inr (), w))"

section \<open>connections.py: \<^verbatim>\<open>StdioConnection\<close>\<close>

record stdio_connection =
  command :: string
  args :: "string list"
  env :: "string \<rightharpoonup> string"
  working_dir :: "string option"
  process :: "nat option"

text \<open>\<^verbatim>\<open>env = os.environ.copy(); env.update(self.env)\<close>\<close>

definition merged_env :: "world \<Rightarrow> (string \<rightharpoonup> string) \<Rightarrow> (string \<rightharpoonup> string)" where
  "merged_env w overrides = os_environ w ++ overrides"

definition ensure_running ::
  "stdio_connection \<Rightarrow> world \<Rightarrow> (exn + unit) \<times> stdio_connection \<times> world" where
  "ensure_running c w =
     (if (case process c of None \<Rightarrow> True | Some pid \<Rightarrow> \<not> running w pid)
      then (case Popen w (command c # args c) (merged_env w (env c)) (working_dir c) of
              (Inl e, w') \<Rightarrow> (Inl e, c, w')
            | (Inr pid, w') \<Rightarrow> (Inr (), c\<lparr>process := Some pid\<rparr>, w'))
      else (Inr (), c, w))"

definition StdioConnection_list_tools ::
  "(json \<Rightarrow> exn + string) \<Rightarrow> (string \<Rightarrow> exn + json) \<Rightarrow> stdio_connection \<Rightarrow> world
     \<Rightarrow> (exn + json) \<times> stdio_connection \<times> world" where
  "StdioConnection_list_tools dumps loads c w =
     (case ensure_running c w of
        (Inl e, c', w') \<Rightarrow> (Inl e, c', w')
      | (Inr u, c', w') \<Rightarrow>
          (case process c' of
             None \<Rightarrow> (Inl (AttributeError ''stdin''), c', w')
           | Some pid \<Rightarrow>
               (case exchange dumps loads w' pid list_tools_request of
                  (r, w'') \<Rightarrow> (r, c', w''))))"

definition StdioConnection_call_tool ::
  "(json \<Rightarrow> exn + string) \<Rightarrow> (string \<Rightarrow> exn + json) \<Rightarrow> stdio_connection \<Rightarrow> world
     \<Rightarrow> string \<Rightarrow> json \<Rightarrow> (exn + json) \<times> stdio_connection \<times> world" where
  "StdioConnection_call_tool dumps loads c w tool_name arguments =
     (case ensure_running c w of
        (Inl e, c', w') \<Rightarrow> (Inl e, c', w')
      | (Inr u, c', w') \<Rightarrow>
          (case process c' of
             None \<Rightarrow> (Inl (AttributeError ''stdin''), c', w')
           | Some pid \<Rightarrow>
               (case exchange dumps loads w' pid (call_tool_request tool_name arguments) of
                  (Inl e, w'') \<Rightarrow> (Inl e, c', w'')
                | (Inr result, w'') \<Rightarrow> (raise_on_error result, c', w''))))"

definition StdioConnection_stop ::
  "stdio_connection \<Rightarrow> world \<Rightarrow> ((exn + unit) \<times> stdio_connection \<times> world) option" where
  "StdioConnection_stop c w =
     (case stop_process (process c) w of
        None \<Rightarrow> None
      | Some (Inl e, w') \<Rightarrow> Some (Inl e, c, w')
      | Some (Inr u, w') \<Rightarrow> Some (Inr (), c\<lparr>process := None\<rparr>, w'))"

text \<open>
  The states a connection and its children can be in: it is created without a child, its
  methods are called in any order with any arguments, and a child may exit on its own at any
  moment.
\<close>

inductive_set reachable ::
  "(json \<Rightarrow> exn + string) \<Rightarrow> (string \<Rightarrow> exn + json) \<Rightarrow> (stdio_connection \<times> world) set"
  for dumps :: "json \<Rightarrow> exn + string" and loads :: "string \<Rightarrow> exn + json" where
  created: "process c = None \<Longrightarrow> procs w = [] \<Longrightarrow> (c, w) \<in> reachable dumps loads"
| ensured: "(c, w) \<in> reachable dumps loads \<Longrightarrow> ensure_running c w = (r, c', w')
     \<Longrightarrow> (c', w') \<in> reachable dumps loads"
| listed: "(c, w) \<in> reachable dumps loads \<Longrightarrow> StdioConnection_list_tools dumps loads c w = (r, c', w')
     \<Longrightarrow> (c', w') \<in> reachable dumps loads"
| called: "(c, w) \<in> reachable dumps loads
     \<Longrightarrow> StdioConnection_call_tool dumps loads c w tool_name arguments = (r, c', w')
     \<Longrightarrow> (c', w') \<in> reachable dumps loads"
| stopped: "(c, w) \<in> reachable dumps loads \<Longrightarrow> StdioConnection_stop c w = Some (r, c', w')
     \<Longrightarrow> (c', w') \<in> reachable dumps loads"
| child_exit: "(c, w) \<in> reachable dumps loads \<Longrightarrow> pid < length (procs w)
     \<Longrightarrow> (c, update_proc w pid (\<lambda>p. p\<lparr>alive := False\<rparr>)) \<in> reachable dumps loads"

section \<open>tool_caller.py: \<^verbatim>\<open>ToolCaller\<close>\<close>

record tool_caller_obj =
  server_command :: string
  server_args :: "string list"
  tc_process :: "nat option"

text \<open>\<^verbatim>\<open>start\<close> passes no \<^verbatim>\<open>env\<close>: the child inherits the environment.\<close>

definition ToolCaller_start ::
  "tool_caller_obj \<Rightarrow> world \<Rightarrow> (exn + unit) \<times> tool_caller_obj \<times> world" where
  "ToolCaller_start c w =
     (case Popen w (server_command c # server_args c) (os_environ w) None of
        (Inl e, w') \<Rightarrow> (Inl e, c, w')
      | (Inr pid, w') \<Rightarrow> (Inr (), c\<lparr>tc_process := Some pid\<rparr>, w'))"

definition ToolCaller_stop ::
  "tool_caller_obj \<Rightarrow> world \<Rightarrow> ((exn + unit) \<times> tool_caller_obj \<times> world) option" where
  "ToolCaller_stop c w =
     (case stop_process (tc_process c) w of
        None \<Rightarrow> None
      | Some (Inl e, w') \<Rightarrow> Some (Inl e, c, w')
      | Some (Inr u, w') \<Rightarrow> Some (Inr (), c\<lparr>tc_process := None\<rparr>, w'))"

definition ToolCaller_call_tool ::
  "(json \<Rightarrow> exn + string) \<Rightarrow> (string \<Rightarrow> exn + json) \<Rightarrow> tool_caller_obj \<Rightarrow> world
     \<Rightarrow> string \<Rightarrow> json \<Rightarrow> (exn + json) \<times> tool_caller_obj \<times> world" where
  "ToolCaller_call_tool dumps loads c w tool_name arguments =
     (case tc_process c of
        None \<Rightarrow> (Inl (RuntimeError (JStr ''Server not running. Call start() first.'')), c, w)
      | Some pid \<Rightarrow>
          (case exchange dumps loads w pid (call_tool_request tool_name arguments) of
             (r, w') \<Rightarrow> (r, c, w')))"

section \<open>server_runner.py: \<^verbatim>\<open>ServerRunner.run\<close>\<close>

record server_runner =
  sr_command :: string
  sr_args :: "string list"
  sr_env :: "string \<rightharpoonup> string"
  sr_working_dir :: "string option"
  sr_process :: "nat option"

text \<open>The \<^verbatim>\<open>finally\<close> block of \<^verbatim>\<open>run\<close>.\<close>

definition ServerRunner_run_exit ::
  "server_runner \<Rightarrow> world \<Rightarrow> ((exn + unit) \<times> server_runner \<times> world) option" where
  "ServerRunner_run_exit r w =
     (case stop_process (sr_process r) w of
        None \<Rightarrow> None
      | Some (Inl e, w') \<Rightarrow> Some (Inl e, r, w')
      | Some (Inr u, w') \<Rightarrow> Some (Inr (), r\<lparr>sr_process := None\<rparr>, w'))"

text \<open>
  \<^verbatim>\<open>run\<close> up to its \<^verbatim>\<open>yield\<close>.  When \<^verbatim>\<open>Popen\<close> raises, the \<^verbatim>\<open>finally\<close> block runs before the
  exception leaves.
\<close>

definition ServerRunner_run_enter ::
  "server_runner \<Rightarrow> world \<Rightarrow> ((exn + nat) \<times> server_runner \<times> world) option" where
  "ServerRunner_run_enter r w =
     (case Popen w (sr_command r # sr_args r) (merged_env w (sr_env r)) (sr_working_dir r) of
        (Inr pid, w') \<Rightarrow> Some (Inr pid, r\<lparr>sr_process := Some pid\<rparr>, w')
      | (Inl e, w') \<Rightarrow>
          (case ServerRunner_run_exit r w' of
             None \<Rightarrow> None
           | Some (Inl e', r', w'') \<Rightarrow> Some (Inl e', r', w'')
           | Some (Inr u, r', w'') \<Rightarrow> Some (Inl e, r', w'')))"


section \<open>The vocabulary of the statements\<close>

text \<open>
  A tool caller wrapped so that its state also holds the list of the calls made to it, in
  order.  The wrapper changes no result.
\<close>

definition logged ::
  "('tc \<Rightarrow> string \<Rightarrow> json \<Rightarrow> (exn + json) \<times> 'tc)
     \<Rightarrow> 'tc \<times> (string \<times> json) list \<Rightarrow> string \<Rightarrow> json
     \<Rightarrow> (exn + json) \<times> ('tc \<times> (string \<times> json) list)" where
  "logged f s tool_name tool_input =
     (case s of (tc, calls) \<Rightarrow>
        (case f tc tool_name tool_input of
           (r, tc') \<Rightarrow> (r, (tc', calls @ [(tool_name, tool_input)]))))"

text \<open>
  For the agent loop: the blocks and messages that are tool uses and tool results; metrics
  with one entry per tool name, whose count is the number of its durations and at least 1;
  the exception a coroutine raises for \<^verbatim>\<open>StopIteration\<close>; an engine that can answer with stop
  reason \<^verbatim>\<open>tool_use\<close> and no tool-use block; and the agreement of a state's conversation,
  call log and metrics on the number of tool calls.
\<close>

fun is_tool_use :: "block \<Rightarrow> bool" where
  "is_tool_use (ToolUseBlock i n a) = True"
| "is_tool_use b = False"

fun is_tool_result :: "message \<Rightarrow> bool" where
  "is_tool_result (Message r (ToolResult i s)) = True"
| "is_tool_result m = False"

definition metrics_ok :: "(string \<times> tool_metric) list \<Rightarrow> bool" where
  "metrics_ok tm =
     (distinct (map fst tm)
      \<and> (\<forall>(name, m) \<in> set tm. count m = int (length (durations m)) \<and> 1 \<le> count m))"

definition stop_iteration :: exn where
  "stop_iteration = RuntimeError (JStr ''coroutine raised StopIteration'')"

definition malformed :: "'tc collaborators \<Rightarrow> bool" where
  "malformed E = (\<exists>msgs r. engine E msgs = Inr r \<and> stop_reason r = ''tool_use''
                    \<and> first_tool_use (content r) = None)"

definition tally :: "('tc \<times> (string \<times> json) list) loop_state \<Rightarrow> bool" where
  "tally st =
     (length (filter is_tool_result (messages st)) = length (snd (tool_caller st))
      \<and> int (length (snd (tool_caller st))) = count_tool_calls (tool_metrics st))"

text \<open>
  For processes: every running child is the one the connection holds; a child that exits
  within the 5 seconds \<^verbatim>\<open>stop\<close> waits after \<^verbatim>\<open>SIGTERM\<close>; and a child as \<^verbatim>\<open>stop\<close>
  leaves it.
\<close>

definition owns :: "stdio_connection \<Rightarrow> world \<Rightarrow> bool" where
  "owns c w = (\<forall>pid. running w pid \<longrightarrow> process c = Some pid)"

definition graceful :: "proc \<Rightarrow> bool" where
  "graceful p = (SIGKILL \<in> set (signals p) \<or> (\<exists>d. term_delay (beh p) = Some d \<and> d \<le> 5))"

definition stopped_proc :: "proc \<Rightarrow> proc" where
  "stopped_proc p =
     p\<lparr>signals := signals p @ (if graceful p then [SIGTERM] else [SIGTERM, SIGKILL]),
       alive := False\<rparr>"

section \<open>An example system\<close>

text \<open>
  A small run used to instantiate the theorems: the engine asks for two tools in its first
  response and answers in its second; the tool fails on every call.
\<close>

definition demo_text :: string where
  "demo_text = ''<summary>did X</summary><response> 42 </response>''"

definition demo_engine :: "message list \<Rightarrow> exn + response" where
  "demo_engine msgs =
     (if length msgs = 1
      then Inr \<lparr>stop_reason = ''tool_use'',
                content = [TextBlock ''adding'',
                           ToolUseBlock ''tu1'' ''add'' (JObj [(''a'', JInt 1), (''b'', JInt 2)]),
                           ToolUseBlock ''tu2'' ''mul'' (JObj [])]\<rparr>
      else Inr \<lparr>stop_reason = ''end_turn'',
                content = [TextBlock demo_text]\<rparr>)"

definition demo_tool :: "unit \<Rightarrow> string \<Rightarrow> json \<Rightarrow> (exn + json) \<times> unit" where
  "demo_tool tc tool_name tool_input = (Inl (RuntimeError (JStr ''bad args'')), tc)"

definition demo_collaborators :: "(unit \<times> (string \<times> json) list) collaborators" where
  "demo_collaborators =
     \<lparr>engine = demo_engine, call_tool = logged demo_tool, time_time = real,
      json_dumps = (\<lambda>v. Inr ''{}''), py_str = (\<lambda>v. ''v''),
      exn_str = (\<lambda>e. ''bad args''), format_exc = (\<lambda>e. ''Traceback'')\<rparr>"

definition demo_qa :: qa_pair where
  "demo_qa = \<lparr>question = ''What is 6 times 7?'', answer = ''42''\<rparr>"

definition demo_first :: "(unit \<times> (string \<times> json) list) loop_state" where
  "demo_first =
     \<lparr>messages = [Message ''user'' (Text ''What is 6 times 7?''),
                 Message ''assistant'' (Blocks [TextBlock ''adding'',
                   ToolUseBlock ''tu1'' ''add'' (JObj [(''a'', JInt 1), (''b'', JInt 2)]),
                   ToolUseBlock ''tu2'' ''mul'' (JObj [])])],
      response = \<lparr>stop_reason = ''tool_use'',
                   content = [TextBlock ''adding'',
                     ToolUseBlock ''tu1'' ''add'' (JObj [(''a'', JInt 1), (''b'', JInt 2)]),
                     ToolUseBlock ''tu2'' ''mul'' (JObj [])]\<rparr>,
      tool_metrics = [], tool_caller = ((), []), ticks = 1\<rparr>"

definition demo_final :: "(unit \<times> (string \<times> json) list) loop_state" where
  "demo_final =
     \<lparr>messages = [Message ''user'' (Text ''What is 6 times 7?''),
                 Message ''assistant'' (Blocks [TextBlock ''adding'',
                   ToolUseBlock ''tu1'' ''add'' (JObj [(''a'', JInt 1), (''b'', JInt 2)]),
                   ToolUseBlock ''tu2'' ''mul'' (JObj [])]),
                 Message ''user'' (ToolResult ''tu1''
                   (''Error executing tool add: bad args'' @ [CHR 0x0A] @ ''Traceback'')),
                 Message ''assistant'' (Blocks [TextBlock demo_text])],
      response = \<lparr>stop_reason = ''end_turn'', content = [TextBlock demo_text]\<rparr>,
      tool_metrics = [(''add'', \<lparr>count = 1, durations = [1]\<rparr>)],
      tool_caller = ((), [(''add'', JObj [(''a'', JInt 1), (''b'', JInt 2)])]),
      ticks = 3\<rparr>"

definition demo_results :: "task_result list" where
  "demo_results =
     [\<lparr>tr_question = ''q1'', expected = ''42'', actual = Some ''42'', score = 1,
       total_duration = 3, tool_calls = [], num_tool_calls = 0, summary = None\<rparr>,
      \<lparr>tr_question = ''q2'', expected = ''7'', actual = Some ''9'', score = 0,
       total_duration = 1, tool_calls = [], num_tool_calls = 0, summary = None\<rparr>]"

text \<open>
  The sum of floats from the left, each addition rounded, as the built-in sum computes it
  before Python 3.12; and a run of 25 tasks of which 7 are scored 1.
\<close>

definition demo_float_sum :: "real list \<Rightarrow> pyfloat" where
  "demo_float_sum ds =
     foldl (\<lambda>a x. case a of Finite v \<Rightarrow> to_float (v + x) | PosInf \<Rightarrow> PosInf | NegInf \<Rightarrow> NegInf)
       (Finite 0) ds"

definition demo_task :: "int \<Rightarrow> task_result" where
  "demo_task s =
     \<lparr>tr_question = ''q'', expected = ''42'', actual = (if s = 1 then Some ''42'' else None),
      score = s, total_duration = 1, tool_calls = [], num_tool_calls = 0, summary = None\<rparr>"

definition demo_25 :: "task_result list" where
  "demo_25 = replicate 7 (demo_task 1) @ replicate 18 (demo_task 0)"

text \<open>
  Two programs can be started: one that answers every request with an error mapping and exits
  one second after \<^verbatim>\<open>SIGTERM\<close>, and one that ignores \<^verbatim>\<open>SIGTERM\<close>.
\<close>

definition demo_behaviour :: behaviour where
  "demo_behaviour = \<lparr>reply = (\<lambda>requests. ''E''), term_delay = Some 1\<rparr>"

definition demo_stubborn :: behaviour where
  "demo_stubborn = \<lparr>reply = (\<lambda>requests. ''R''), term_delay = None\<rparr>"

definition demo_program ::
  "string list \<Rightarrow> (string \<rightharpoonup> string) \<Rightarrow> string option \<Rightarrow> behaviour option" where
  "demo_program a e d =
     (if a = [''python'', ''server.py''] then Some demo_behaviour
      else if a = [''python'', ''stubborn.py''] then Some demo_stubborn
      else None)"

definition demo_environ :: "string \<rightharpoonup> string" where
  "demo_environ = [''PATH'' \<mapsto> ''/bin'', ''MODE'' \<mapsto> ''prod'']"

definition demo_world :: world where
  "demo_world = \<lparr>procs = [], os_environ = demo_environ, program = demo_program\<rparr>"

definition demo_dumps :: "json \<Rightarrow> exn + string" where
  "demo_dumps v = Inr ''request''"

definition demo_loads :: "string \<Rightarrow> exn + json" where
  "demo_loads s =
     (if s = ''E'' then Inr (JObj [(''error'', JStr ''bad args'')])
      else if s = ''R'' then Inr (JObj [(''result'', JInt 3)])
      else Inl (JSONDecodeError s))"

definition demo_connection :: stdio_connection where
  "demo_connection =
     \<lparr>command = ''python'', args = [''server.py''], env = [''MODE'' \<mapsto> ''test''],
      working_dir = None, process = None\<rparr>"

definition demo_tool_caller :: tool_caller_obj where
  "demo_tool_caller =
     \<lparr>server_command = ''python'', server_args = [''server.py''], tc_process = None\<rparr>"

definition demo_runner :: server_runner where
  "demo_runner =
     \<lparr>sr_command = ''python'', sr_args = [''server.py''], sr_env = [''MODE'' \<mapsto> ''test''],
      sr_working_dir = None, sr_process = None\<rparr>"

definition demo_child :: "(string \<rightharpoonup> string) \<Rightarrow> behaviour \<Rightarrow> string list \<Rightarrow> proc" where
  "demo_child e b a =
     \<lparr>argv = a, penv = e, cwd = None, alive = True, stdin_log = [], signals = [], beh = b\<rparr>"

definition demo_started :: world where
  "demo_started =
     demo_world\<lparr>procs := [demo_child demo_environ demo_behaviour [''python'', ''server.py'']]\<rparr>"

definition demo_ensured :: world where
  "demo_ensured =
     demo_world\<lparr>procs := [demo_child (demo_environ ++ [''MODE'' \<mapsto> ''test'']) demo_behaviour
                              [''python'', ''server.py'']]\<rparr>"

definition demo_twice :: world where
  "demo_twice =
     demo_world\<lparr>procs := [demo_child (demo_environ ++ [''MODE'' \<mapsto> ''test'']) demo_behaviour
                              [''python'', ''server.py''],
                            demo_child (demo_environ ++ [''MODE'' \<mapsto> ''test'']) demo_behaviour
                              [''python'', ''server.py'']]\<rparr>"

definition demo_exited :: world where
  "demo_exited =
     demo_world\<lparr>procs := [(demo_child (demo_environ ++ [''MODE'' \<mapsto> ''test'']) demo_behaviour
                               [''python'', ''server.py''])\<lparr>alive := False\<rparr>]\<rparr>"

definition demo_stubborn_world :: world where
  "demo_stubborn_world =
     demo_world\<lparr>procs := [demo_child demo_environ demo_stubborn [''python'', ''stubborn.py'']]\<rparr>"


section \<open>Properties of tag extraction\<close>

lemma lazy_group_Some:
  "lazy_group ys s = Some (g, r) \<Longrightarrow> s = g @ ys @ r"
proof (induction s arbitrary: g)
  case Nil
  then show ?case by (auto split: if_splits)
next
  case (Cons c cs)
  show ?case
  proof (cases "prefix ys (c # cs)")
    case True
    with Cons.prems show ?thesis
      by (auto simp: prefix_def)
  next
    case False
    with Cons.prems obtain g' where "lazy_group ys cs = Some (g', r)" "g = c # g'"
      by auto
    with Cons.IH show ?thesis by simp
  qed
qed

lemma lazy_group_None:
  "lazy_group ys s = None \<longleftrightarrow> \<not> sublist ys s"
proof (induction s)
  case Nil
  show ?case by simp
next
  case (Cons c cs)
  then show ?case by (simp add: sublist_Cons_right)
qed

lemma prefix_shorter:
  "prefix ys (a @ b) \<Longrightarrow> length ys \<le> length a \<Longrightarrow> prefix ys a"
  by (auto simp: prefix_append)

lemma tag_matches_skip_eq:
  assumes "\<not> prefix (open_tag tag) (c # cs) \<or>
         \<not> sublist (close_tag tag) (drop (length (open_tag tag)) (c # cs))"
  shows "tag_matches tag (c # cs) = tag_matches tag cs"
proof (cases "prefix (open_tag tag) (c # cs)")
  case False
  then show ?thesis by simp
next
  case True
  with assms have "lazy_group (close_tag tag) (drop (length (open_tag tag)) (c # cs)) = None"
    by (simp add: lazy_group_None)
  with True show ?thesis by simp
qed

lemma tag_matches_match_eq:
  assumes "prefix (open_tag tag) (c # cs)"
    and "lazy_group (close_tag tag) (drop (length (open_tag tag)) (c # cs)) = Some (g, rest)"
  shows "tag_matches tag (c # cs) = g # tag_matches tag rest"
    and "c # cs = open_tag tag @ g @ close_tag tag @ rest"
proof -
  show "tag_matches tag (c # cs) = g # tag_matches tag rest"
    using assms by simp
  from assms(1) obtain r0 where r0: "c # cs = open_tag tag @ r0" by (auto simp: prefix_def)
  then have "drop (length (open_tag tag)) (c # cs) = r0" by (metis append_eq_conv_conj)
  with assms(2) have "r0 = g @ close_tag tag @ rest" by (simp add: lazy_group_Some)
  with r0 show "c # cs = open_tag tag @ g @ close_tag tag @ rest" by simp
qed

lemma occurs_Cons: "occurs tag cs \<Longrightarrow> occurs tag (c # cs)"
proof -
  assume "occurs tag cs"
  then obtain pre d post where "cs = pre @ open_tag tag @ d @ close_tag tag @ post"
    by (auto simp: occurs_def)
  then have "c # cs = (c # pre) @ open_tag tag @ d @ close_tag tag @ post" by simp
  then show ?thesis unfolding occurs_def by blast
qed

lemma occurs_tail:
  assumes "occurs tag (c # cs)"
    and "\<not> prefix (open_tag tag) (c # cs) \<or>
         \<not> sublist (close_tag tag) (drop (length (open_tag tag)) (c # cs))"
  shows "occurs tag cs"
proof -
  from assms(1) obtain pre d post where d: "c # cs = pre @ open_tag tag @ d @ close_tag tag @ post"
    by (auto simp: occurs_def)
  have "pre \<noteq> []"
  proof
    assume "pre = []"
    with d have e: "c # cs = open_tag tag @ d @ close_tag tag @ post" by simp
    then have "prefix (open_tag tag) (c # cs)" by simp
    moreover from e have "drop (length (open_tag tag)) (c # cs) = d @ close_tag tag @ post"
      by (metis append_eq_conv_conj)
    then have "sublist (close_tag tag) (drop (length (open_tag tag)) (c # cs))" by simp
    ultimately show False using assms(2) by blast
  qed
  then obtain pre' where "pre = c # pre'" using d by (cases pre) auto
  with d have "cs = pre' @ open_tag tag @ d @ close_tag tag @ post" by simp
  then show ?thesis unfolding occurs_def by blast
qed

lemma tag_matches_Nil_iff: "tag_matches tag s = [] \<longleftrightarrow> \<not> occurs tag s"
proof (induction s)
  case Nil
  show ?case by (simp add: open_tag_def occurs_def)
next
  case (Cons c cs)
  show ?case
  proof (cases "prefix (open_tag tag) (c # cs) \<and>
         sublist (close_tag tag) (drop (length (open_tag tag)) (c # cs))")
    case False
    then have sk: "\<not> prefix (open_tag tag) (c # cs) \<or>
         \<not> sublist (close_tag tag) (drop (length (open_tag tag)) (c # cs))" by blast
    have "tag_matches tag (c # cs) = tag_matches tag cs"
      using sk by (rule tag_matches_skip_eq)
    moreover have "occurs tag (c # cs) \<longleftrightarrow> occurs tag cs"
      using occurs_Cons occurs_tail[OF _ sk] by blast
    ultimately show ?thesis using Cons.IH by simp
  next
    case True
    then obtain a where "lazy_group (close_tag tag) (drop (length (open_tag tag)) (c # cs)) = Some a"
      using lazy_group_None by (metis not_Some_eq)
    then obtain g rest where lg:
      "lazy_group (close_tag tag) (drop (length (open_tag tag)) (c # cs)) = Some (g, rest)"
      by (cases a) simp
    from True have pf: "prefix (open_tag tag) (c # cs)" by simp
    have "tag_matches tag (c # cs) \<noteq> []"
      using tag_matches_match_eq(1)[OF pf lg] by simp
    moreover have "c # cs = [] @ open_tag tag @ g @ close_tag tag @ rest"
      using tag_matches_match_eq(2)[OF pf lg] by simp
    then have "occurs tag (c # cs)" unfolding occurs_def by blast
    ultimately show ?thesis by simp
  qed
qed

lemma tag_matches_last:
  "tag_matches tag s \<noteq> [] \<Longrightarrow>
         \<exists>pre post. s = pre @ open_tag tag @ last (tag_matches tag s) @ close_tag tag @ post
                  \<and> tag_matches tag post = []"
proof (induction s rule: length_induct)
  case (1 s)
  let ?P = "\<lambda>s. \<exists>pre post. s = pre @ open_tag tag @ last (tag_matches tag s) @ close_tag tag @ post
                  \<and> tag_matches tag post = []"
  from "1.prems" obtain c cs where s: "s = c # cs" by (cases s) auto
  have skip: "?P (c # cs)" if eq: "tag_matches tag (c # cs) = tag_matches tag cs"
  proof -
    from eq "1.prems" s have "tag_matches tag cs \<noteq> []" by simp
    with "1.IH" s have "?P cs" by simp
    then obtain pre post where
      "cs = pre @ open_tag tag @ last (tag_matches tag cs) @ close_tag tag @ post"
      "tag_matches tag post = []" by blast
    then have "c # cs = (c # pre) @ open_tag tag @ last (tag_matches tag (c # cs)) @ close_tag tag @ post
        \<and> tag_matches tag post = []" using eq by simp
    then show ?thesis by blast
  qed
  show ?case
  proof (cases "prefix (open_tag tag) (c # cs) \<and>
         sublist (close_tag tag) (drop (length (open_tag tag)) (c # cs))")
    case False
    then have "tag_matches tag (c # cs) = tag_matches tag cs"
      by (intro tag_matches_skip_eq) blast+
    then show ?thesis unfolding s by (rule skip)
  next
    case True
    then obtain a where "lazy_group (close_tag tag) (drop (length (open_tag tag)) (c # cs)) = Some a"
      using lazy_group_None by (metis not_Some_eq)
    then obtain g rest where lg:
      "lazy_group (close_tag tag) (drop (length (open_tag tag)) (c # cs)) = Some (g, rest)"
      by (cases a) simp
    from True have pf: "prefix (open_tag tag) (c # cs)" by simp
    note eq = tag_matches_match_eq(1)[OF pf lg]
    note dec = tag_matches_match_eq(2)[OF pf lg]
    show ?thesis
    proof (cases "tag_matches tag rest = []")
      case True
      with eq dec have "c # cs = [] @ open_tag tag @ last (tag_matches tag (c # cs)) @ close_tag tag @ rest
           \<and> tag_matches tag rest = []" by simp
      then show ?thesis unfolding s by blast
    next
      case False
      from arg_cong[OF dec, of length] have "length rest < length (c # cs)"
        by (simp add: open_tag_def)
      with "1.IH" s False have "?P rest" by simp
      then obtain pre post where pp:
          "rest = pre @ open_tag tag @ last (tag_matches tag rest) @ close_tag tag @ post"
          "tag_matches tag post = []" by blast
      have "c # cs = (open_tag tag @ g @ close_tag tag @ pre) @ open_tag tag
                 @ last (tag_matches tag (c # cs)) @ close_tag tag @ post"
        using dec pp(1) eq False by simp
      with pp(2) show ?thesis unfolding s by blast
    qed
  qed
qed

lemma no_early_prefix:
  assumes "\<not> sublist ys (x # xs @ butlast ys)" and "ys \<noteq> []"
  shows "\<not> prefix ys (x # xs @ ys @ w)"
proof
  assume p: "prefix ys (x # xs @ ys @ w)"
  have "x # xs @ ys @ w = (x # xs @ butlast ys) @ (last ys # w)"
    using assms(2) by simp
  with p have "prefix ys ((x # xs @ butlast ys) @ (last ys # w))" by simp
  moreover have "length ys \<le> length (x # xs @ butlast ys)" by simp
  ultimately have "prefix ys (x # xs @ butlast ys)" by (rule prefix_shorter)
  with assms(1) show False by blast
qed

lemma lazy_group_first:
  assumes "\<not> sublist ys (c @ butlast ys)" and "ys \<noteq> []"
  shows "lazy_group ys (c @ ys @ post) = Some (c, post)"
  using assms(1)
proof (induction c)
  case Nil
  obtain y ys' where "ys = y # ys'" using assms(2) by (cases ys) auto
  then show ?case by simp
next
  case (Cons x xs)
  from Cons.prems have "\<not> prefix ys (x # xs @ ys @ post)"
    using no_early_prefix assms(2) by simp
  moreover from Cons.prems have "\<not> sublist ys (xs @ butlast ys)"
    by (simp add: sublist_Cons_right)
  ultimately show ?case using Cons.IH by simp
qed

lemma tag_matches_skip_pre:
  "\<not> sublist (open_tag tag) (pre @ butlast (open_tag tag)) \<Longrightarrow>
         tag_matches tag (pre @ open_tag tag @ w) = tag_matches tag (open_tag tag @ w)"
proof (induction pre)
  case Nil
  show ?case by simp
next
  case (Cons x xs)
  have ne: "open_tag tag \<noteq> []" by (simp add: open_tag_def)
  from Cons.prems have "\<not> prefix (open_tag tag) (x # xs @ open_tag tag @ w)"
    using no_early_prefix ne by simp
  then have "tag_matches tag (x # xs @ open_tag tag @ w) = tag_matches tag (xs @ open_tag tag @ w)"
    by (intro tag_matches_skip_eq) blast+
  moreover from Cons.prems have "\<not> sublist (open_tag tag) (xs @ butlast (open_tag tag))"
    by (simp add: sublist_Cons_right)
  ultimately show ?case using Cons.IH by simp
qed

lemma tag_matches_occurrence:
  assumes "\<not> sublist (open_tag tag) (pre @ butlast (open_tag tag))"
    and "\<not> sublist (close_tag tag) (c @ butlast (close_tag tag))"
  shows "tag_matches tag (pre @ open_tag tag @ c @ close_tag tag @ post) = c # tag_matches tag post"
proof -
  have ne: "close_tag tag \<noteq> []" by (simp add: close_tag_def)
  obtain x xs where ox: "open_tag tag @ c @ close_tag tag @ post = x # xs"
    by (simp add: open_tag_def)
  have pf: "prefix (open_tag tag) (x # xs)" using ox by (metis prefixI)
  have "drop (length (open_tag tag)) (x # xs) = c @ close_tag tag @ post"
    using ox by (metis append_eq_conv_conj)
  then have lg: "lazy_group (close_tag tag) (drop (length (open_tag tag)) (x # xs))
      = Some (c, post)"
    using lazy_group_first[OF assms(2) ne] by simp
  have eq: "tag_matches tag (x # xs) = c # tag_matches tag post"
    using pf lg by (rule tag_matches_match_eq(1))
  have "tag_matches tag (pre @ open_tag tag @ c @ close_tag tag @ post)
      = tag_matches tag (open_tag tag @ c @ close_tag tag @ post)"
    by (rule tag_matches_skip_pre[OF assms(1)])
  also have "\<dots> = c # tag_matches tag post"
    using eq[folded ox] .
  finally show ?thesis .
qed

lemma lazy_group_minimal:
  assumes "ys \<noteq> []"
  shows "lazy_group ys s = Some (g, r) \<Longrightarrow> \<not> sublist ys (g @ butlast ys)"
proof (induction s arbitrary: g)
  case Nil
  with assms show ?case by (auto split: if_splits)
next
  case (Cons c cs)
  show ?case
  proof (cases "prefix ys (c # cs)")
    case True
    with Cons.prems have "g = []" by simp
    moreover have "\<not> sublist ys (butlast ys)"
    proof
      assume "sublist ys (butlast ys)"
      then have "length ys \<le> length (butlast ys)" by (rule sublist_length_le)
      moreover from assms have "length (butlast ys) < length ys"
        by (cases ys) simp_all
      ultimately show False by linarith
    qed
    ultimately show ?thesis by simp
  next
    case False
    with Cons.prems obtain g' where g': "lazy_group ys cs = Some (g', r)" "g = c # g'"
      by auto
    from g'(1) have cs: "cs = g' @ ys @ r" by (rule lazy_group_Some)
    have "\<not> prefix ys (c # g' @ butlast ys)"
    proof
      assume "prefix ys (c # g' @ butlast ys)"
      then have "prefix ys ((c # g' @ butlast ys) @ (last ys # r))"
        using prefix_prefix by blast
      moreover have "(c # g' @ butlast ys) @ (last ys # r) = c # cs"
        using assms cs by simp
      ultimately show False using False by simp
    qed
    moreover from g'(1) have "\<not> sublist ys (g' @ butlast ys)" by (rule Cons.IH)
    ultimately show ?thesis using g'(2) by (simp add: sublist_Cons_right)
  qed
qed

lemma tag_matches_minimal:
  "g \<in> set (tag_matches tag s) \<Longrightarrow> \<not> sublist (close_tag tag) (g @ butlast (close_tag tag))"
proof (induction s rule: length_induct)
  case (1 s)
  have ne: "close_tag tag \<noteq> []" by (simp add: close_tag_def)
  from "1.prems" obtain c cs where s: "s = c # cs" by (cases s) auto
  show ?case
  proof (cases "prefix (open_tag tag) (c # cs) \<and>
         sublist (close_tag tag) (drop (length (open_tag tag)) (c # cs))")
    case False
    then have "tag_matches tag (c # cs) = tag_matches tag cs"
      by (intro tag_matches_skip_eq) blast+
    with "1.prems" s have "g \<in> set (tag_matches tag cs)" by simp
    moreover from s have "length cs < length s" by simp
    ultimately show ?thesis using "1.IH" by blast
  next
    case True
    then obtain a where "lazy_group (close_tag tag) (drop (length (open_tag tag)) (c # cs)) = Some a"
      using lazy_group_None by (metis not_Some_eq)
    then obtain g0 rest where lg:
      "lazy_group (close_tag tag) (drop (length (open_tag tag)) (c # cs)) = Some (g0, rest)"
      by (cases a) simp
    from True have pf: "prefix (open_tag tag) (c # cs)" by simp
    note eq = tag_matches_match_eq(1)[OF pf lg]
    note dec = tag_matches_match_eq(2)[OF pf lg]
    from "1.prems" s eq have "g = g0 \<or> g \<in> set (tag_matches tag rest)" by simp
    then show ?thesis
    proof
      assume "g = g0"
      with lazy_group_minimal[OF ne lg] show ?thesis by simp
    next
      assume r: "g \<in> set (tag_matches tag rest)"
      from arg_cong[OF dec, of length] have "length rest < length s"
        by (simp add: open_tag_def s)
      with r show ?thesis using "1.IH" by blast
    qed
  qed
qed

lemma extract_plain:
  "plain_tag tag \<Longrightarrow> extract_xml_content text tag =
     Some (if tag_matches tag text \<noteq> [] then Some (strip (last (tag_matches tag text))) else None)"
  by (simp add: extract_xml_content_def re_findall_def)

lemma plain_response: "plain_tag ''response''"
  by (simp add: plain_tag_def regex_special_def)

lemma plain_summary: "plain_tag ''summary''"
  by (simp add: plain_tag_def regex_special_def)

text \<open>
  Claim C3, as amended.  For a tag name that stands for itself in the pattern: extraction
  gives \<open>None\<close>, never an empty string, when the opening delimiter is absent from the text,
  and exactly when no opening delimiter is followed by a closing one.  A value it returns is
  the trimmed content of a match: a stretch of the text between an opening delimiter and the
  first closing delimiter after it (the stretch holds no closing delimiter, it may hold
  opening ones), after which the text has no further match.  The matches are those of the
  scan from left to right: the first opening delimiter of the text, with the first closing
  delimiter after it, is a match, and the result is that of the text after this match when
  there is one there, the content of this match otherwise.
\<close>

theorem extract_last_occurrence:
  assumes "plain_tag tag"
  shows "(\<not> sublist (open_tag tag) text \<longrightarrow> extract_xml_content text tag = Some None)
    \<and> (extract_xml_content text tag = Some None \<longleftrightarrow> \<not> occurs tag text)
    \<and> (\<forall>r. extract_xml_content text tag = Some (Some r) \<longrightarrow>
          (\<exists>pre c post. text = pre @ open_tag tag @ c @ close_tag tag @ post
              \<and> \<not> sublist (close_tag tag) (c @ butlast (close_tag tag))
              \<and> r = strip c \<and> extract_xml_content post tag = Some None))
    \<and> (\<forall>pre c post. text = pre @ open_tag tag @ c @ close_tag tag @ post
          \<and> \<not> sublist (open_tag tag) (pre @ butlast (open_tag tag))
          \<and> \<not> sublist (close_tag tag) (c @ butlast (close_tag tag))
          \<longrightarrow> extract_xml_content text tag =
                Some (Some (case extract_xml_content post tag of
                              Some (Some r) \<Rightarrow> r | _ \<Rightarrow> strip c)))"
proof (intro conjI allI impI)
  note ex = extract_plain[OF assms]
  have none_iff: "extract_xml_content s tag = Some None \<longleftrightarrow> tag_matches tag s = []" for s
    by (simp add: ex)
  show n: "extract_xml_content text tag = Some None \<longleftrightarrow> \<not> occurs tag text"
    using tag_matches_Nil_iff none_iff by simp
  show "extract_xml_content text tag = Some None" if "\<not> sublist (open_tag tag) text"
  proof -
    have "\<not> occurs tag text"
    proof
      assume "occurs tag text"
      then obtain pre c post where "text = pre @ open_tag tag @ c @ close_tag tag @ post"
        by (auto simp: occurs_def)
      then have "sublist (open_tag tag) text" by simp
      with that show False by blast
    qed
    with n show ?thesis by simp
  qed
  show "\<exists>pre c post. text = pre @ open_tag tag @ c @ close_tag tag @ post
              \<and> \<not> sublist (close_tag tag) (c @ butlast (close_tag tag))
              \<and> r = strip c \<and> extract_xml_content post tag = Some None"
    if "extract_xml_content text tag = Some (Some r)" for r
  proof -
    from that have ne: "tag_matches tag text \<noteq> []" and r: "r = strip (last (tag_matches tag text))"
      by (auto simp: ex split: if_splits)
    from tag_matches_last[OF ne] obtain pre post where
      "text = pre @ open_tag tag @ last (tag_matches tag text) @ close_tag tag @ post"
      "tag_matches tag post = []" by blast
    moreover from ne have "last (tag_matches tag text) \<in> set (tag_matches tag text)" by simp
    then have "\<not> sublist (close_tag tag) (last (tag_matches tag text) @ butlast (close_tag tag))"
      by (rule tag_matches_minimal)
    ultimately show ?thesis using r none_iff by blast
  qed
  show "extract_xml_content text tag =
                Some (Some (case extract_xml_content post tag of
                              Some (Some r) \<Rightarrow> r | _ \<Rightarrow> strip c))"
    if "text = pre @ open_tag tag @ c @ close_tag tag @ post
          \<and> \<not> sublist (open_tag tag) (pre @ butlast (open_tag tag))
          \<and> \<not> sublist (close_tag tag) (c @ butlast (close_tag tag))" for pre c post
  proof -
    from that have "tag_matches tag text = c # tag_matches tag post"
      using tag_matches_occurrence by blast
    then show ?thesis by (simp add: ex)
  qed
qed

theorem extract_last_occurrence_witness:
  "plain_tag ''response''
   \<and> \<not> sublist (open_tag ''response'') ''no tags here''
   \<and> extract_xml_content ''no tags here'' ''response'' = Some None
   \<and> extract_xml_content ''<response>1</response> and <response> 2 </response>'' ''response''
       = Some (Some ''2'')"
proof -
  note p = plain_response
  have q: "\<not> sublist (open_tag ''response'') ''no tags here''"
    by code_simp
  from extract_last_occurrence[OF p, of "''no tags here''"] q
  have a: "extract_xml_content ''no tags here'' ''response'' = Some None" by blast
  have e0: "extract_xml_content [] ''response'' = Some None"
    by (simp add: extract_plain[OF p])
  have s2: "strip '' 2 '' = ''2''" by code_simp
  let ?t2 = "'' and <response> 2 </response>''"
  have h2: "?t2 = '' and '' @ open_tag ''response'' @ '' 2 '' @ close_tag ''response'' @ []
          \<and> \<not> sublist (open_tag ''response'') ('' and '' @ butlast (open_tag ''response''))
          \<and> \<not> sublist (close_tag ''response'') ('' 2 '' @ butlast (close_tag ''response''))"
    by code_simp
  from extract_last_occurrence[OF p, of ?t2, THEN conjunct2, THEN conjunct2, THEN conjunct2,
      rule_format, OF h2]
  have b: "extract_xml_content ?t2 ''response'' = Some (Some ''2'')"
    by (simp add: e0 s2)
  let ?t1 = "''<response>1</response> and <response> 2 </response>''"
  have h1: "?t1 = [] @ open_tag ''response'' @ ''1'' @ close_tag ''response'' @ ?t2
          \<and> \<not> sublist (open_tag ''response'') ([] @ butlast (open_tag ''response''))
          \<and> \<not> sublist (close_tag ''response'') (''1'' @ butlast (close_tag ''response''))"
    by code_simp
  from extract_last_occurrence[OF p, of ?t1, THEN conjunct2, THEN conjunct2, THEN conjunct2,
      rule_format, OF h1]
  have c: "extract_xml_content ?t1 ''response'' = Some (Some ''2'')"
    by (simp add: b)
  from p q a c show ?thesis by simp
qed

text \<open>
  Claim C3 as stated fails for the tag \<^verbatim>\<open>response\<close> that the evaluation passes.  The text
  below echoes an opening delimiter and ends with the one complete occurrence of the tag,
  whose content is \<^verbatim>\<open>42\<close>; the match starts at the echoed delimiter, and the value returned
  is not the content of the last occurrence.
\<close>

theorem extract_echoed_tag_counterexample:
  "''I will wrap my answer in <response> tags. <response>42</response>'' =
     ''I will wrap my answer in <response> tags. '' @
       open_tag ''response'' @ ''42'' @ close_tag ''response''
   \<and> extract_xml_content ''I will wrap my answer in <response> tags. <response>42</response>''
         ''response'' = Some (Some ''tags. <response>42'')
   \<and> strip ''42'' = ''42''
   \<and> ''tags. <response>42'' \<noteq> ''42''"
  by code_simp

section \<open>Properties of scoring and of the run statistics\<close>

lemma demo_run:
  "agent_loop 1 demo_collaborators (question demo_qa) ((), []) (0 + 1) =
   Some (Inr (Some demo_text, [(''add'', \<lparr>count = 1, durations = [1]\<rparr>)], demo_final))"
  by (simp add: agent_loop_def first_turn_def demo_collaborators_def demo_engine_def demo_qa_def
      loop_body_def logged_def demo_tool_def tool_response_of_def error_response_def
      record_call_def Let_def demo_final_def)

lemma demo_response_matches: "tag_matches ''response'' demo_text = ['' 42 '']"
  by code_simp

lemma demo_strip: "strip '' 42 '' = ''42''"
  by code_simp

text \<open>
  Claim C2.  When the agent loop returns a final text, the task is scored: the actual answer
  is the trimmed content of the last \<^verbatim>\<open>response\<close> match, or nothing, and the score is 1
  exactly when that answer exists, is not empty and equals the expected answer; it is 0
  otherwise.
\<close>

theorem score_exact_match:
  assumes "agent_loop fuel E (question qa) tc (t + 1) = Some (Inr (Some text, tm, st))"
  shows "\<exists>r tc' t'. evaluate_single_task fuel E qa tc t = Some (Inr (r, tc', t'))
           \<and> re_findall ''response'' text = Some (tag_matches ''response'' text)
           \<and> actual r = (if tag_matches ''response'' text = [] then None
                         else Some (strip (last (tag_matches ''response'' text))))
           \<and> score r = (if actual r \<noteq> None \<and> actual r \<noteq> Some [] \<and> actual r = Some (answer qa)
                        then 1 else 0)"
  using assms
  by (auto simp: evaluate_single_task_def Let_def score_of_def re_findall_def
      extract_plain[OF plain_response] extract_plain[OF plain_summary] plain_response)

theorem score_exact_match_witness:
  "map_option (map_sum id (\<lambda>(r, tc', t'). (actual r, score r)))
     (evaluate_single_task 1 demo_collaborators demo_qa ((), []) 0) = Some (Inr (Some ''42'', 1))"
proof -
  from score_exact_match[OF demo_run]
  obtain r tc' t' where
    e: "evaluate_single_task 1 demo_collaborators demo_qa ((), []) 0 = Some (Inr (r, tc', t'))"
    and a: "actual r = (if tag_matches ''response'' demo_text = [] then None
                         else Some (strip (last (tag_matches ''response'' demo_text))))"
    and s: "score r = (if actual r \<noteq> None \<and> actual r \<noteq> Some [] \<and> actual r = Some (answer demo_qa)
                        then 1 else 0)"
    by blast
  from a have a': "actual r = Some ''42''"
    by (simp add: demo_response_matches demo_strip)
  with s have "score r = 1" by (simp add: demo_qa_def)
  with e a' show ?thesis by simp
qed

lemma ilog2_up_bounds: "1 \<le> x \<Longrightarrow> 2 powi (ilog2_up x) \<le> x \<and> x < 2 powi (ilog2_up x + 1) \<and> 0 \<le> ilog2_up x"
proof (induction x rule: ilog2_up.induct)
  case (1 x)
  show ?case
  proof (cases "x < 2")
    case True
    with "1.prems" show ?thesis by (simp add: ilog2_up.simps[of x])
  next
    case False
    then have "1 \<le> x / 2" by simp
    with "1.IH" False have ih: "2 powi (ilog2_up (x / 2)) \<le> x / 2"
      "x / 2 < 2 powi (ilog2_up (x / 2) + 1)" "0 \<le> ilog2_up (x / 2)" by simp_all
    have e: "ilog2_up x = ilog2_up (x / 2) + 1" using False by (simp add: ilog2_up.simps[of x])
    have p: "2 powi (n + 1) = 2 * (2::real) powi n" for n :: int
      by (simp add: power_int_add)
    from ih(1) have "2 powi (ilog2_up (x / 2) + 1) \<le> x"
      unfolding p by simp
    moreover from ih(2) have "x < 2 powi (ilog2_up (x / 2) + 1 + 1)"
      unfolding p[of "ilog2_up (x / 2) + 1"] by simp
    moreover from ih(3) have "0 \<le> ilog2_up (x / 2) + 1" by simp
    ultimately show ?thesis unfolding e by blast
  qed
qed

lemma ilog2_down_bounds:
  "0 < x \<Longrightarrow> x < 1 \<Longrightarrow> 2 powi (ilog2_down x) \<le> x \<and> x < 2 powi (ilog2_down x + 1)"
proof (induction x rule: ilog2_down.induct)
  case (1 x)
  have e: "ilog2_down x = ilog2_down (x * 2) - 1"
    using "1.prems" by (simp add: ilog2_down.simps[of x])
  have p: "2 powi (n - 1) = (2::real) powi n / 2" for n :: int
    by (simp add: power_int_diff)
  show ?case
  proof (cases "x * 2 < 1")
    case True
    with "1.IH" "1.prems" have "2 powi (ilog2_down (x * 2)) \<le> x * 2"
      "x * 2 < 2 powi (ilog2_down (x * 2) + 1)" by simp_all
    then show ?thesis unfolding e by (simp add: p power_int_add)
  next
    case False
    then have "ilog2_down (x * 2) = 0" by (simp add: ilog2_down.simps[of "x * 2"])
    with "1.prems" False show ?thesis unfolding e by simp
  qed
qed

lemma ilog2_bounds:
  assumes "0 < x"
  shows "2 powi (ilog2 x) \<le> x" and "x < 2 powi (ilog2 x + 1)"
  using assms ilog2_up_bounds[of x] ilog2_down_bounds[of x]
  by (auto simp: ilog2_def)

lemma round_half_even_error: "\<bar>of_int (round_half_even x) - x\<bar> \<le> 1 / 2"
  unfolding round_half_even_def Let_def by (auto; linarith)

lemma ilog2_ge:
  assumes "2 powi n \<le> x"
  shows "n \<le> ilog2 x"
proof -
  have "(0::real) < 2 powi n" by simp
  with assms have x: "0 < x" by linarith
  from assms ilog2_bounds(2)[OF x] have "(2::real) powi n < 2 powi (ilog2 x + 1)" by linarith
  have "n < ilog2 x + 1"
  proof (rule ccontr)
    assume "\<not> n < ilog2 x + 1"
    then have "ilog2 x + 1 \<le> n" by simp
    then have "(2::real) powi (ilog2 x + 1) \<le> 2 powi n" by (rule power_int_increasing) simp
    with \<open>(2::real) powi n < 2 powi (ilog2 x + 1)\<close> show False by linarith
  qed
  then show ?thesis by simp
qed

lemma round64_error:
  assumes "2 powi (- 1022) \<le> x"
  shows "\<bar>round64 x - x\<bar> \<le> x / 2 ^ 53"
proof -
  have "(0::real) < 2 powi (- 1022)" by (rule zero_less_power_int) simp
  with assms have x: "0 < x" by linarith
  define e where "e = ilog2 x"
  from assms have "- 1022 \<le> e" unfolding e_def by (rule ilog2_ge)
  then have k: "max (e - 52) (- 1074) = e - 52" by simp
  define m where "m = round_half_even (x / 2 powi (e - 52))"
  have r: "round64 x = of_int m * 2 powi (e - 52)"
    using x k by (simp add: round64_def Let_def e_def[symmetric] m_def)
  have pk: "(0::real) < 2 powi (e - 52)" by (rule zero_less_power_int) simp
  have "\<bar>of_int m - x / 2 powi (e - 52)\<bar> \<le> 1 / 2"
    unfolding m_def by (rule round_half_even_error)
  then have "\<bar>of_int m - x / 2 powi (e - 52)\<bar> * 2 powi (e - 52) \<le> 1 / 2 * 2 powi (e - 52)"
    using pk by (intro mult_right_mono) simp_all
  moreover have "\<bar>of_int m - x / 2 powi (e - 52)\<bar> * 2 powi (e - 52)
      = \<bar>of_int m * 2 powi (e - 52) - x\<bar>"
  proof -
    have "\<bar>of_int m - x / 2 powi (e - 52)\<bar> * 2 powi (e - 52)
        = \<bar>(of_int m - x / 2 powi (e - 52)) * 2 powi (e - 52)\<bar>"
      using pk by (simp add: abs_mult)
    also have "(of_int m - x / 2 powi (e - 52)) * 2 powi (e - 52) = of_int m * 2 powi (e - 52) - x"
      using pk by (simp add: field_simps)
    finally show ?thesis .
  qed
  moreover have "1 / 2 * (2::real) powi (e - 52) = 2 powi e / 2 ^ 53"
    by (simp add: power_int_diff)
  moreover have "2 powi e / 2 ^ 53 \<le> x / 2 ^ 53"
    using ilog2_bounds(1)[OF x] by (simp add: e_def divide_right_mono)
  ultimately show ?thesis unfolding r by linarith
qed

lemma round64_zero: "round64 0 = 0"
  by (simp add: round64_def)

lemma to_float_zero: "to_float 0 = Finite 0"
  by (simp add: to_float_def round64_zero)

lemma to_float_normal:
  assumes "2 powi (- 1022) \<le> x" and "x \<le> 2 ^ 1000"
  shows "to_float x = Finite (round64 x)" and "0 < round64 x"
    and "\<bar>round64 x - x\<bar> \<le> x / 2 ^ 53"
proof -
  have "(0::real) < 2 powi (- 1022)" by (rule zero_less_power_int) simp
  with assms(1) have x: "0 < x" by linarith
  show e: "\<bar>round64 x - x\<bar> \<le> x / 2 ^ 53" using assms(1) by (rule round64_error)
  have "x / 2 ^ 53 < x" using x by (simp add: field_simps)
  with e show p: "0 < round64 x" by linarith
  have "x / 2 ^ 53 \<le> x" using x by (simp add: field_simps)
  with e have "round64 x \<le> 2 * x" by linarith
  also have "\<dots> \<le> 2 * 2 ^ 1000" using assms(2) by simp
  also have "\<dots> < (2::real) ^ 1024" by simp
  finally have "round64 x < 2 ^ 1024" .
  with p show "to_float x = Finite (round64 x)" by (simp add: to_float_def Let_def)
qed

lemma int_true_divide_nonneg:
  assumes "0 \<le> a" and "0 < b" and "b < 2 ^ 63" and "a \<le> 2 ^ 63 * b"
  shows "int_true_divide a b = Inr (round64 (of_int a / of_int b))"
proof (cases "a = 0")
  case True
  with assms(2) show ?thesis by (simp add: int_true_divide_def to_float_zero round64_zero)
next
  case False
  with assms(1) have a: "1 \<le> a" by simp
  let ?x = "real_of_int a / real_of_int b"
  have b: "(0::real) < of_int b" "real_of_int b < 2 ^ 63" using assms(2,3) by simp_all
  have "1 / 2 ^ 63 < 1 / real_of_int b" using b by (simp add: field_simps)
  also have "\<dots> \<le> ?x" using a b by (simp add: divide_right_mono)
  finally have "1 / 2 ^ 63 < ?x" .
  moreover have "(2::real) powi (- 1022) \<le> 1 / 2 ^ 63" by simp
  ultimately have lo: "2 powi (- 1022) \<le> ?x" by linarith
  have "real_of_int a \<le> 2 ^ 63 * real_of_int b"
    using assms(4) by (metis of_int_le_iff of_int_mult of_int_numeral of_int_power)
  then have "?x \<le> 2 ^ 63" using b by (simp add: field_simps)
  also have "\<dots> \<le> (2::real) ^ 1000" by simp
  finally have hi: "?x \<le> 2 ^ 1000" .
  from to_float_normal(1)[OF lo hi] assms(2) show ?thesis
    by (simp add: int_true_divide_def)
qed

lemma count_correct:
  assumes "\<forall>r \<in> set results. score r = 0 \<or> score r = 1"
  shows "sum_list (map score results) = int (length (filter (\<lambda>r. score r = 1) results))"
  using assms by (induction results) auto

lemma tool_calls_bound:
  assumes "\<forall>r \<in> set results. 0 \<le> num_tool_calls r \<and> num_tool_calls r < 2 ^ 63"
  shows "0 \<le> sum_list (map num_tool_calls results)
    \<and> sum_list (map num_tool_calls results) \<le> 2 ^ 63 * int (length results)"
  using assms
proof (induction results)
  case Nil
  show ?case by simp
next
  case (Cons r rs)
  then have "0 \<le> sum_list (map num_tool_calls rs)
    \<and> sum_list (map num_tool_calls rs) \<le> 2 ^ 63 * int (length rs)" by simp
  moreover from Cons.prems have "0 \<le> num_tool_calls r \<and> num_tool_calls r < 2 ^ 63" by simp
  ultimately show ?case by (simp add: algebra_simps)
qed

lemma accuracy_value:
  assumes "1 \<le> c" and "c \<le> n" and "n < 2 ^ 63"
  shows "float_mul (round64 (real c / real n)) 100
           = Finite (round64 (round64 (real c / real n) * 100))"
    and "\<bar>round64 (round64 (real c / real n) * 100) - 100 * real c / real n\<bar>
           \<le> 100 * real c / real n * (2 / 2 ^ 53 + 1 / 2 ^ 106)"
proof -
  define x where "x = real c / real n"
  define q where "q = round64 x"
  define y where "y = q * 100"
  define u :: real where "u = 1 / 2 ^ 53"
  have u: "0 < u" "u \<le> 1 / 2" by (simp_all add: u_def)
  have n: "(0::real) < real n" "real n < 2 ^ 63" using assms by simp_all
  have "1 / 2 ^ 63 < 1 / real n" using n by (simp add: field_simps)
  also have "\<dots> \<le> x" unfolding x_def using assms(1) n by (simp add: divide_right_mono)
  finally have x63: "1 / 2 ^ 63 < x" .
  moreover have "(2::real) powi (- 1022) \<le> 1 / 2 ^ 63" by simp
  ultimately have lo: "2 powi (- 1022) \<le> x" by linarith
  have x1: "x \<le> 1" unfolding x_def using assms n by (simp add: field_simps)
  then have hi: "x \<le> 2 ^ 1000" by (rule order_trans) simp
  have xpos: "0 < x" using x63 by (rule less_trans[rotated]) simp
  from to_float_normal(3)[OF lo hi] have q3: "\<bar>q - x\<bar> \<le> x * u"
    by (simp add: q_def u_def)
  have "x * u \<le> x * (1 / 2)" using xpos u(2) by (intro mult_left_mono) simp_all
  with q3 have qb: "x / 2 \<le> q" "q \<le> x + x / 2" by (simp_all add: abs_le_iff; linarith)+
  have "(2::real) powi (- 1022) \<le> 1 / 2 ^ 63 / 2 * 100" by simp
  also have "\<dots> \<le> x / 2 * 100" using x63 by simp
  also have "\<dots> \<le> y" unfolding y_def using qb(1) by simp
  finally have ylo: "2 powi (- 1022) \<le> y" .
  have "y \<le> 200" unfolding y_def using qb(2) x1 by simp
  then have yhi: "y \<le> 2 ^ 1000" by (rule order_trans) simp
  note a = to_float_normal[OF ylo yhi]
  from a(1) show "float_mul (round64 (real c / real n)) 100
           = Finite (round64 (round64 (real c / real n) * 100))"
    by (simp add: float_mul_def y_def q_def x_def)
  have ypos: "0 \<le> y" using qb(1) xpos by (simp add: y_def)
  have "\<bar>y - 100 * x\<bar> = 100 * \<bar>q - x\<bar>" by (simp add: y_def abs_if)
  also have "\<dots> \<le> 100 * (x * u)" using q3 by simp
  finally have d1: "\<bar>y - 100 * x\<bar> \<le> 100 * x * u" by simp
  then have "y \<le> 100 * x + 100 * x * u" by linarith
  then have "y * u \<le> (100 * x + 100 * x * u) * u"
    using u(1) by (intro mult_right_mono) simp_all
  moreover from a(3) have "\<bar>round64 y - y\<bar> \<le> y * u" by (simp add: u_def)
  ultimately have d2: "\<bar>round64 y - y\<bar> \<le> (100 * x + 100 * x * u) * u" by linarith
  have "\<bar>round64 y - 100 * x\<bar> \<le> \<bar>round64 y - y\<bar> + \<bar>y - 100 * x\<bar>" by linarith
  also have "\<dots> \<le> (100 * x + 100 * x * u) * u + 100 * x * u"
    using d1 d2 by linarith
  also have "\<dots> = 100 * x * (2 * u + u * u)" by (simp add: algebra_simps)
  also have "2 * u + u * u = 2 / 2 ^ 53 + 1 / 2 ^ 106" by (simp add: u_def)
  finally show "\<bar>round64 (round64 (real c / real n) * 100) - 100 * real c / real n\<bar>
           \<le> 100 * real c / real n * (2 / 2 ^ 53 + 1 / 2 ^ 106)"
    by (simp add: y_def q_def x_def)
qed

lemma int_to_float_length:
  assumes "1 \<le> n" and "n < 2 ^ 63"
  shows "\<exists>d. int_to_float (int n) = Inr d \<and> d \<noteq> 0"
proof -
  have "(2::real) powi (- 1022) \<le> 1" by simp
  also have "1 \<le> real n" using assms(1) by simp
  finally have lo: "2 powi (- 1022) \<le> real n" .
  have "real n \<le> 2 ^ 63" using assms(2) by simp
  also have "\<dots> \<le> (2::real) ^ 1000" by simp
  finally have hi: "real n \<le> 2 ^ 1000" .
  from to_float_normal(1,2)[OF lo hi] show ?thesis
    by (simp add: int_to_float_def)
qed

text \<open>
  Claim C6, as amended.  Over results whose scores are 0 or 1 (with fewer than \<open>2 ^ 63\<close>
  results and tool calls per result), the statistics are computed without an error.  For no
  results the accuracy and the two averages are 0.  Otherwise the accuracy is the float
  product by 100 of the float quotient of the number \<open>C\<close> of results scored 1 by the number
  \<open>N\<close> of results: two roundings, so it is within the relative error
  \<open>2 / 2 ^ 53 + 1 / 2 ^ 106\<close> of \<open>100 * C / N\<close>, which it need not equal.
\<close>

theorem accuracy_formula:
  assumes "\<forall>r \<in> set results. score r = 0 \<or> score r = 1"
    and "\<forall>r \<in> set results. 0 \<le> num_tool_calls r \<and> num_tool_calls r < 2 ^ 63"
    and "length results < 2 ^ 63"
  shows "\<exists>st a. run_evaluation_stats float_sum results = Inr st
           \<and> accuracy st = Finite a
           \<and> a = (if results = [] then 0
                  else round64 (round64 (real (length (filter (\<lambda>r. score r = 1) results))
                                          / real (length results)) * 100))
           \<and> (results \<noteq> [] \<longrightarrow>
                \<bar>a - 100 * real (length (filter (\<lambda>r. score r = 1) results))
                        / real (length results)\<bar>
                \<le> 100 * real (length (filter (\<lambda>r. score r = 1) results))
                      / real (length results) * (2 / 2 ^ 53 + 1 / 2 ^ 106))
           \<and> (results = [] \<longrightarrow>
                a = 0 \<and> average_duration_s st = Finite 0 \<and> average_tool_calls st = Finite 0)"
proof (cases "results = []")
  case True
  then show ?thesis by (simp add: run_evaluation_stats_def)
next
  case False
  define n where "n = length results"
  define c where "c = length (filter (\<lambda>r. score r = 1) results)"
  define s where "s = sum_list (map num_tool_calls results)"
  define a where "a = round64 (round64 (real c / real n) * 100)"
  from False have n1: "1 \<le> n" by (cases results) (simp_all add: n_def)
  from assms(3) have n63: "n < 2 ^ 63" by (simp add: n_def)
  have cn: "c \<le> n" by (simp add: c_def n_def)
  have corr: "sum_list (map score results) = int c"
    unfolding c_def using assms(1) by (rule count_correct)
  have "int c \<le> 2 ^ 63 * int n"
  proof -
    have "int c \<le> int n" using cn by simp
    also have "\<dots> \<le> 2 ^ 63 * int n" by simp
    finally show ?thesis .
  qed
  with n1 n63 have q: "int_true_divide (int c) (int n) = Inr (round64 (real c / real n))"
    using int_true_divide_nonneg[of "int c" "int n"] by simp
  have acc: "float_mul (round64 (real c / real n)) 100 = Finite a"
    and bound: "\<bar>a - 100 * real c / real n\<bar>
           \<le> 100 * real c / real n * (2 / 2 ^ 53 + 1 / 2 ^ 106)"
  proof -
    show "float_mul (round64 (real c / real n)) 100 = Finite a"
    proof (cases "c = 0")
      case True
      then show ?thesis by (simp add: a_def float_mul_def round64_zero to_float_zero)
    next
      case False
      then have "1 \<le> c" by simp
      then show ?thesis unfolding a_def using cn n63 by (rule accuracy_value(1))
    qed
    show "\<bar>a - 100 * real c / real n\<bar>
           \<le> 100 * real c / real n * (2 / 2 ^ 53 + 1 / 2 ^ 106)"
    proof (cases "c = 0")
      case True
      then show ?thesis by (simp add: a_def round64_zero)
    next
      case False
      then have "1 \<le> c" by simp
      then show ?thesis unfolding a_def using cn n63 by (rule accuracy_value(2))
    qed
  qed
  from int_to_float_length[OF n1 n63] obtain d where
    d: "int_to_float (int n) = Inr d" "d \<noteq> 0" by blast
  then obtain avg where avg:
    "float_true_divide (float_sum (map total_duration results)) d = Inr avg"
    by (simp add: float_true_divide_def)
  from tool_calls_bound[OF assms(2)] have "0 \<le> s" "s \<le> 2 ^ 63 * int n"
    by (simp_all add: s_def n_def)
  with n1 n63 have t: "int_true_divide s (int n) = Inr (round64 (of_int s / real n))"
    using int_true_divide_nonneg[of s "int n"] by simp
  let ?st = "\<lparr>correct = int c, accuracy = Finite a, average_duration_s = avg,
      average_tool_calls = Finite (round64 (of_int s / real n)), total_tool_calls = s\<rparr>"
  have "run_evaluation_stats float_sum results = Inr ?st"
    using False
    by (simp add: run_evaluation_stats_def Let_def corr n_def[symmetric] s_def[symmetric]
        q acc d avg t)
  moreover have "accuracy ?st = Finite a" by simp
  moreover have "a = (if results = [] then 0
                  else round64 (round64 (real (length (filter (\<lambda>r. score r = 1) results))
                                          / real (length results)) * 100))"
    using False by (simp add: a_def c_def n_def)
  moreover have "\<bar>a - 100 * real (length (filter (\<lambda>r. score r = 1) results))
                        / real (length results)\<bar>
                \<le> 100 * real (length (filter (\<lambda>r. score r = 1) results))
                      / real (length results) * (2 / 2 ^ 53 + 1 / 2 ^ 106)"
    using bound by (simp add: c_def n_def)
  ultimately show ?thesis using False by blast
qed

lemma round64_half: "round64 (1 / 2) = 1 / 2"
proof -
  have "ilog2 (1 / 2) = - 1" by (simp add: ilog2_def ilog2_down.simps)
  then show ?thesis by (simp add: round64_def round_half_even_def Let_def)
qed

lemma round64_50: "round64 50 = 50"
proof -
  have "ilog2 50 = 5" by (simp add: ilog2_def ilog2_up.simps)
  then show ?thesis by (simp add: round64_def round_half_even_def Let_def)
qed

lemma round64_25: "round64 25 = 25"
proof -
  have "ilog2 25 = 4" by (simp add: ilog2_def ilog2_up.simps)
  then show ?thesis by (simp add: round64_def round_half_even_def Let_def)
qed

lemma round64_7_25: "round64 (7 / 25) = 1261007895663739 / 4503599627370496"
proof -
  have "ilog2 (7 / 25) = - 2" by (simp add: ilog2_def ilog2_down.simps)
  then show ?thesis by (simp add: round64_def round_half_even_def Let_def)
qed

lemma round64_28: "round64 (31525197391593475 / 1125899906842624)
    = 7881299347898369 / 281474976710656"
proof -
  have "ilog2 (31525197391593475 / 1125899906842624) = 4"
    by (simp add: ilog2_def ilog2_up.simps)
  then show ?thesis by (simp add: round64_def round_half_even_def Let_def)
qed

theorem accuracy_formula_witness:
  "map score demo_results = [1, 0]
   \<and> map_sum id accuracy (run_evaluation_stats demo_float_sum demo_results) = Inr (Finite 50)
   \<and> map_sum id accuracy (run_evaluation_stats demo_float_sum []) = Inr (Finite 0)"
proof -
  have h1: "\<forall>r \<in> set demo_results. score r = 0 \<or> score r = 1"
    by (simp add: demo_results_def)
  have h2: "\<forall>r \<in> set demo_results. 0 \<le> num_tool_calls r \<and> num_tool_calls r < 2 ^ 63"
    by (simp add: demo_results_def)
  have h3: "length demo_results < 2 ^ 63" by (simp add: demo_results_def)
  from accuracy_formula[OF h1 h2 h3, of demo_float_sum] obtain st a where
    r: "run_evaluation_stats demo_float_sum demo_results = Inr st"
    and s: "accuracy st = Finite a"
    and a: "a = (if demo_results = [] then 0
                  else round64 (round64 (real (length (filter (\<lambda>r. score r = 1) demo_results))
                                          / real (length demo_results)) * 100))"
    by blast
  have "a = 50" unfolding a by (simp add: demo_results_def round64_half round64_50)
  with r s have "map_sum id accuracy (run_evaluation_stats demo_float_sum demo_results)
      = Inr (Finite 50)" by simp
  moreover from accuracy_formula[of "[]" demo_float_sum]
  have "map_sum id accuracy (run_evaluation_stats demo_float_sum []) = Inr (Finite 0)" by auto
  moreover have "map score demo_results = [1, 0]" by (simp add: demo_results_def)
  ultimately show ?thesis by blast
qed

text \<open>
  Claim C6 as stated fails: over 25 results of which 7 are scored 1, the accuracy reported is
  the float \<^verbatim>\<open>28.000000000000004\<close>, which is \<open>28 + 1 / 2 ^ 48\<close>, and \<open>100 * 7 / 25\<close> is 28.
\<close>

theorem accuracy_rounding_counterexample:
  "length demo_25 = 25
   \<and> sum_list (map score demo_25) = 7
   \<and> map_sum id accuracy (run_evaluation_stats demo_float_sum demo_25)
       = Inr (Finite (7881299347898369 / 281474976710656))
   \<and> (7881299347898369 / 281474976710656 :: real) = 28 + 1 / 2 ^ 48
   \<and> (7881299347898369 / 281474976710656 :: real) \<noteq> 100 * 7 / 25"
proof -
  have l: "length demo_25 = 25" by (simp add: demo_25_def)
  have c: "sum_list (map score demo_25) = 7"
    by (simp add: demo_25_def demo_task_def sum_list_replicate)
  have t: "sum_list (map num_tool_calls demo_25) = 0"
    by (simp add: demo_25_def demo_task_def sum_list_replicate)
  have ne: "demo_25 \<noteq> []" by (simp add: demo_25_def)
  have q: "int_true_divide 7 25 = Inr (1261007895663739 / 4503599627370496)"
    by (simp add: int_true_divide_def to_float_def round64_7_25 Let_def)
  have m: "float_mul (1261007895663739 / 4503599627370496) 100
      = Finite (7881299347898369 / 281474976710656)"
    by (simp add: float_mul_def to_float_def round64_28 Let_def)
  have d: "int_to_float 25 = Inr 25"
    by (simp add: int_to_float_def to_float_def round64_25 Let_def)
  have z: "int_true_divide 0 25 = Inr 0"
    by (simp add: int_true_divide_def to_float_zero)
  have "map_sum id accuracy (run_evaluation_stats demo_float_sum demo_25)
       = Inr (Finite (7881299347898369 / 281474976710656))"
    by (simp add: run_evaluation_stats_def Let_def l c t ne q m d z float_true_divide_def)
  with l c show ?thesis by simp
qed

section \<open>Properties of the agent loop\<close>

lemma map_entry_keys: "map fst (AList.map_entry k f al) = map fst al"
  by (induction al) auto

lemma map_entry_set:
  "(n, m) \<in> set (AList.map_entry k f al) \<Longrightarrow>
     (n, m) \<in> set al \<or> (\<exists>m0. (n, m0) \<in> set al \<and> n = k \<and> m = f m0)"
  by (induction al) (auto split: if_splits)

lemma record_call_keys:
  "map fst (record_call tm n d) = (if map_of tm n = None then map fst tm @ [n] else map fst tm)"
  by (simp add: record_call_def Let_def map_entry_keys)

lemma record_call_fresh:
  "map_of tm n = None \<Longrightarrow> record_call tm n d = tm @ [(n, \<lparr>count = 1, durations = [d]\<rparr>)]"
proof -
  assume a: "map_of tm n = None"
  have "AList.map_entry n f (tm @ [(n, v)]) = tm @ [(n, f v)]" if "map_of tm n = None" for f v
    using that by (induction tm) (auto split: if_splits)
  with a show ?thesis by (simp add: record_call_def Let_def)
qed

lemma record_call_known:
  "map_of tm n = Some y \<Longrightarrow>
   record_call tm n d =
     AList.map_entry n (\<lambda>m. m\<lparr>count := count m + 1, durations := durations m @ [d]\<rparr>) tm"
proof -
  have "AList.map_entry n g (AList.map_entry n f tm) = AList.map_entry n (g \<circ> f) tm" for f g
    by (induction tm) auto
  moreover assume "map_of tm n = Some y"
  ultimately show ?thesis by (simp add: record_call_def Let_def comp_def)
qed

lemma record_call_ok:
  assumes "metrics_ok tm"
  shows "metrics_ok (record_call tm n d)"
proof (cases "map_of tm n")
  case None
  then have "n \<notin> fst ` set tm" by (simp add: map_of_eq_None_iff)
  with assms None show ?thesis
    by (auto simp: record_call_fresh metrics_ok_def)
next
  case (Some y)
  have "distinct (map fst (record_call tm n d))"
    using assms Some by (simp add: record_call_keys metrics_ok_def)
  moreover have "count m = int (length (durations m)) \<and> 1 \<le> count m"
    if "(k, m) \<in> set (record_call tm n d)" for k m
    using that assms
    by (auto simp: record_call_known[OF Some] metrics_ok_def dest!: map_entry_set)
  ultimately show ?thesis by (auto simp: metrics_ok_def)
qed

lemma record_call_total:
  "count_tool_calls (record_call tm n d) = count_tool_calls tm + 1"
proof (cases "map_of tm n")
  case None
  then show ?thesis by (simp add: record_call_fresh count_tool_calls_def)
next
  case (Some y)
  have "map_of tm n = Some y \<Longrightarrow>
     sum_list (map (\<lambda>(name, m). int (length (durations m)))
       (AList.map_entry n (\<lambda>m. m\<lparr>count := count m + 1, durations := durations m @ [d]\<rparr>) tm))
     = sum_list (map (\<lambda>(name, m). int (length (durations m))) tm) + 1"
    by (induction tm) (auto split: if_splits)
  with Some show ?thesis by (simp add: record_call_known[OF Some] count_tool_calls_def)
qed

lemma metrics_ok_counts:
  "metrics_ok tm \<Longrightarrow> count_tool_calls tm = sum_list (map (\<lambda>(name, m). count m) tm)"
proof -
  assume "metrics_ok tm"
  then have "\<forall>(name, m) \<in> set tm. count m = int (length (durations m))"
    by (auto simp: metrics_ok_def)
  then show ?thesis
    unfolding count_tool_calls_def by (induction tm) auto
qed

lemma loop_body_Inr:
  assumes "loop_body E st = Inr st'"
  obtains i n a res tc' r where
    "first_tool_use (content (response st)) = Some (i, n, a)"
    "call_tool E (tool_caller st) n a = (res, tc')"
    "engine E (messages st @ [Message ''user'' (ToolResult i (tool_response_of E n res))]) = Inr r"
    "st' = \<lparr>messages = messages st @ [Message ''user'' (ToolResult i (tool_response_of E n res)),
                                      Message ''assistant'' (Blocks (content r))],
            response = r,
            tool_metrics = record_call (tool_metrics st) n
                             (time_time E (ticks st + 1) - time_time E (ticks st)),
            tool_caller = tc', ticks = ticks st + 2\<rparr>"
  using assms
  by (auto simp: loop_body_def Let_def split: option.splits prod.splits sum.splits)

lemma while_loop_metrics_ok:
  "while_loop fuel E st = Some (Inr fin) \<Longrightarrow> metrics_ok (tool_metrics st)
     \<Longrightarrow> metrics_ok (tool_metrics fin)"
proof (induction fuel arbitrary: st)
  case 0
  then show ?case by (simp split: if_splits)
next
  case (Suc k)
  show ?case
  proof (cases "stop_reason (response st) = ''tool_use''")
    case False
    with Suc.prems show ?thesis by simp
  next
    case True
    with Suc.prems obtain st' where b: "loop_body E st = Inr st'"
      and w: "while_loop k E st' = Some (Inr fin)"
      by (auto split: sum.splits)
    from b have "metrics_ok (tool_metrics st')"
      using Suc.prems(2) by (auto elim!: loop_body_Inr simp: record_call_ok)
    with w show ?thesis by (rule Suc.IH)
  qed
qed


lemma loop_body_call:
  assumes "first_tool_use (content (response st)) = Some (i, n, a)"
    and "call_tool E (tool_caller st) n a = (res, tc2)"
  shows "loop_body E st =
     (let msgs = messages st @ [Message ''user'' (ToolResult i (tool_response_of E n res))]
      in case engine E msgs of
           Inl x \<Rightarrow> Inl x
         | Inr r \<Rightarrow>
             Inr \<lparr>messages = msgs @ [Message ''assistant'' (Blocks (content r))],
                  response = r,
                  tool_metrics = record_call (tool_metrics st) n
                                   (time_time E (ticks st + 1) - time_time E (ticks st)),
                  tool_caller = tc2, ticks = ticks st + 2\<rparr>)"
  using assms by (simp add: loop_body_def Let_def split: sum.split)

lemma loop_body_Inl_sharp:
  assumes "loop_body E st = Inl x"
  shows "(\<exists>msgs. engine E msgs = Inl x)
       \<or> (x = stop_iteration \<and> first_tool_use (content (response st)) = None)"
  using assms
  by (auto simp: loop_body_def Let_def stop_iteration_def split: option.splits prod.splits sum.splits)

lemma while_loop_Inl_sharp:
  "while_loop fuel E st = Some (Inl x) \<Longrightarrow> \<exists>msgs. engine E msgs = Inr (response st)
     \<Longrightarrow> (\<exists>msgs. engine E msgs = Inl x) \<or> (x = stop_iteration \<and> malformed E)"
proof (induction fuel arbitrary: st)
  case 0
  then show ?case by (simp split: if_splits)
next
  case (Suc k)
  from Suc.prems(1) have tu: "stop_reason (response st) = ''tool_use''"
    by (simp split: if_splits)
  show ?case
  proof (cases "loop_body E st")
    case (Inl e)
    with Suc.prems(1) tu have "x = e" by simp
    with Inl have "loop_body E st = Inl x" by simp
    from loop_body_Inl_sharp[OF this] show ?thesis
    proof (elim disjE conjE)
      assume "\<exists>msgs. engine E msgs = Inl x"
      then show ?thesis by (rule disjI1)
    next
      assume s: "x = stop_iteration" and n: "first_tool_use (content (response st)) = None"
      from Suc.prems(2) obtain msgs where "engine E msgs = Inr (response st)" by (rule exE)
      with tu n have "malformed E" unfolding malformed_def by blast
      with s show ?thesis by simp
    qed
  next
    case (Inr st')
    with Suc.prems(1) tu have w: "while_loop k E st' = Some (Inl x)" by simp
    from Inr have "\<exists>msgs. engine E msgs = Inr (response st')"
      by (elim loop_body_Inr) auto
    with w show ?thesis by (rule Suc.IH)
  qed
qed

lemma agent_loop_Inl_sharp:
  assumes "agent_loop fuel E q tc t = Some (Inl x)"
  shows "(\<exists>msgs. engine E msgs = Inl x) \<or> (x = stop_iteration \<and> malformed E)"
proof (cases "first_turn E q tc t")
  case (Inl e)
  with assms have "x = e" by (simp add: agent_loop_def)
  with Inl show ?thesis by (auto simp: first_turn_def Let_def split: sum.splits)
next
  case (Inr st)
  with assms have "while_loop fuel E st = Some (Inl x)"
    by (auto simp: agent_loop_def split: option.splits sum.splits)
  moreover from Inr have "\<exists>msgs. engine E msgs = Inr (response st)"
    by (auto simp: first_turn_def Let_def split: sum.splits)
  ultimately show ?thesis by (rule while_loop_Inl_sharp)
qed

text \<open>
  Claim C4.  When the tool invocation of a turn raises, the iteration goes on: the message
  appended to the conversation is a tool result whose content is the failure message followed by
  the stack trace, and the iteration can only fail through the engine.  An exception that
  leaves the agent loop is one raised by the engine, or the one caused by an engine response
  with stop reason \<^verbatim>\<open>tool_use\<close> and no tool-use block; with an engine that does neither, no
  exception leaves the loop, whatever the tool caller does.
\<close>

theorem tool_errors_recovered:
  "(\<forall>i n a e tc2.
       first_tool_use (content (response st)) = Some (i, n, a)
       \<and> call_tool E (tool_caller st) n a = (Inl e, tc2) \<longrightarrow>
       loop_body E st =
         (let msgs = messages st @ [Message ''user'' (ToolResult i
                 (''Error executing tool '' @ n @ '': '' @ exn_str E e @ [CHR 0x0A] @ format_exc E e))]
          in case engine E msgs of
               Inl x \<Rightarrow> Inl x
             | Inr r \<Rightarrow>
                 Inr \<lparr>messages = msgs @ [Message ''assistant'' (Blocks (content r))],
                      response = r,
                      tool_metrics = record_call (tool_metrics st) n
                                       (time_time E (ticks st + 1) - time_time E (ticks st)),
                      tool_caller = tc2, ticks = ticks st + 2\<rparr>))
   \<and> (\<forall>x. agent_loop fuel E q tc t = Some (Inl x) \<longrightarrow>
          (\<exists>msgs. engine E msgs = Inl x) \<or> (x = stop_iteration \<and> malformed E))
   \<and> ((\<forall>msgs. \<exists>r. engine E msgs = Inr r) \<and> \<not> malformed E \<longrightarrow>
          (\<forall>x. agent_loop fuel E q tc t \<noteq> Some (Inl x)))"
proof (intro conjI allI impI)
  fix i n a e tc2
  assume h: "first_tool_use (content (response st)) = Some (i, n, a)
       \<and> call_tool E (tool_caller st) n a = (Inl e, tc2)"
  have "tool_response_of E n (Inl e) =
      ''Error executing tool '' @ n @ '': '' @ exn_str E e @ [CHR 0x0A] @ format_exc E e"
    by (simp add: tool_response_of_def error_response_def)
  with h loop_body_call[of st i n a E "Inl e" tc2] show "loop_body E st =
         (let msgs = messages st @ [Message ''user'' (ToolResult i
                 (''Error executing tool '' @ n @ '': '' @ exn_str E e @ [CHR 0x0A] @ format_exc E e))]
          in case engine E msgs of
               Inl x \<Rightarrow> Inl x
             | Inr r \<Rightarrow>
                 Inr \<lparr>messages = msgs @ [Message ''assistant'' (Blocks (content r))],
                      response = r,
                      tool_metrics = record_call (tool_metrics st) n
                                       (time_time E (ticks st + 1) - time_time E (ticks st)),
                      tool_caller = tc2, ticks = ticks st + 2\<rparr>)"
    by simp
next
  fix x
  assume "agent_loop fuel E q tc t = Some (Inl x)"
  then show "(\<exists>msgs. engine E msgs = Inl x) \<or> (x = stop_iteration \<and> malformed E)"
    by (rule agent_loop_Inl_sharp)
next
  fix x
  assume h: "(\<forall>msgs. \<exists>r. engine E msgs = Inr r) \<and> \<not> malformed E"
  show "agent_loop fuel E q tc t \<noteq> Some (Inl x)"
  proof
    assume "agent_loop fuel E q tc t = Some (Inl x)"
    then have "(\<exists>msgs. engine E msgs = Inl x) \<or> (x = stop_iteration \<and> malformed E)"
      by (rule agent_loop_Inl_sharp)
    with h show False by (metis sum.distinct(1))
  qed
qed

lemma demo_first_call:
  "first_tool_use (content (response demo_first))
     = Some (''tu1'', ''add'', JObj [(''a'', JInt 1), (''b'', JInt 2)])
   \<and> call_tool demo_collaborators (tool_caller demo_first) ''add''
        (JObj [(''a'', JInt 1), (''b'', JInt 2)])
     = (Inl (RuntimeError (JStr ''bad args'')),
        ((), [(''add'', JObj [(''a'', JInt 1), (''b'', JInt 2)])]))"
  by (simp add: demo_first_def demo_collaborators_def logged_def demo_tool_def)

theorem tool_errors_recovered_witness:
  "loop_body demo_collaborators demo_first = Inr demo_final"
proof -
  from tool_errors_recovered[of demo_first demo_collaborators] demo_first_call
  have "loop_body demo_collaborators demo_first =
         (let msgs = messages demo_first @ [Message ''user'' (ToolResult ''tu1''
                 (''Error executing tool '' @ ''add'' @ '': ''
                    @ exn_str demo_collaborators (RuntimeError (JStr ''bad args''))
                    @ [CHR 0x0A] @ format_exc demo_collaborators (RuntimeError (JStr ''bad args''))))]
          in case engine demo_collaborators msgs of
               Inl x \<Rightarrow> Inl x
             | Inr r \<Rightarrow>
                 Inr \<lparr>messages = msgs @ [Message ''assistant'' (Blocks (content r))],
                      response = r,
                      tool_metrics = record_call (tool_metrics demo_first) ''add''
                          (time_time demo_collaborators (ticks demo_first + 1)
                             - time_time demo_collaborators (ticks demo_first)),
                      tool_caller = ((), [(''add'', JObj [(''a'', JInt 1), (''b'', JInt 2)])]),
                      ticks = ticks demo_first + 2\<rparr>)"
    by blast
  then show ?thesis
    by (simp add: demo_first_def demo_final_def demo_collaborators_def demo_engine_def
        record_call_def Let_def)
qed


lemma first_tool_use_first:
  "\<forall>b \<in> set pre. \<not> is_tool_use b \<Longrightarrow>
     first_tool_use (pre @ ToolUseBlock i n a # post) = Some (i, n, a)"
proof (induction pre)
  case Nil
  show ?case by simp
next
  case (Cons b bs)
  then show ?case by (cases b) auto
qed

lemma loop_body_logged:
  assumes "call_tool E = logged f" and "tool_caller st = (tc, calls)"
    and "first_tool_use (content (response st)) = Some (i, n, a)"
    and "loop_body E st = Inr st'"
  shows "snd (tool_caller st') = calls @ [(n, a)]"
    and "\<exists>txt r. messages st' = messages st @ [Message ''user'' (ToolResult i txt),
                                              Message ''assistant'' (Blocks (content r))]
            \<and> engine E (messages st @ [Message ''user'' (ToolResult i txt)]) = Inr r
            \<and> response st' = r"
    and "tool_metrics st' = record_call (tool_metrics st) n
                              (time_time E (ticks st + 1) - time_time E (ticks st))"
proof -
  from assms(4) obtain i' n' a' res tc' r where
    f: "first_tool_use (content (response st)) = Some (i', n', a')"
    and c: "call_tool E (tool_caller st) n' a' = (res, tc')"
    and e: "engine E (messages st @ [Message ''user'' (ToolResult i' (tool_response_of E n' res))]) = Inr r"
    and s: "st' = \<lparr>messages = messages st @ [Message ''user'' (ToolResult i' (tool_response_of E n' res)),
                                      Message ''assistant'' (Blocks (content r))],
            response = r,
            tool_metrics = record_call (tool_metrics st) n'
                             (time_time E (ticks st + 1) - time_time E (ticks st)),
            tool_caller = tc', ticks = ticks st + 2\<rparr>"
    by (rule loop_body_Inr)
  from f assms(3) have eq: "i' = i" "n' = n" "a' = a" by simp_all
  from c assms(1,2) eq have "snd tc' = calls @ [(n, a)]"
    by (auto simp: logged_def split: prod.splits)
  with s show "snd (tool_caller st') = calls @ [(n, a)]" by simp
  from s e eq show "\<exists>txt r. messages st' = messages st @ [Message ''user'' (ToolResult i txt),
                                              Message ''assistant'' (Blocks (content r))]
            \<and> engine E (messages st @ [Message ''user'' (ToolResult i txt)]) = Inr r
            \<and> response st' = r"
    by auto
  from s eq show "tool_metrics st' = record_call (tool_metrics st) n
                              (time_time E (ticks st + 1) - time_time E (ticks st))"
    by simp
qed

lemma loop_body_tally:
  assumes "call_tool E = logged f" and "loop_body E st = Inr st'" and "tally st"
  shows "tally st'"
proof -
  from assms(2) obtain i n a where
    f: "first_tool_use (content (response st)) = Some (i, n, a)"
    by (auto elim: loop_body_Inr)
  obtain tc calls where t: "tool_caller st = (tc, calls)" by (cases "tool_caller st")
  note l = loop_body_logged[OF assms(1) t f assms(2)]
  from l(2) obtain body and r :: response where
    "messages st' = messages st @ [Message ''user'' (ToolResult i body),
                                   Message ''assistant'' (Blocks (content r))]" by auto
  then have "length (filter is_tool_result (messages st'))
      = length (filter is_tool_result (messages st)) + 1" by simp
  with l(1) l(3) t assms(3) show ?thesis
    by (simp add: tally_def record_call_total)
qed

lemma while_loop_tally:
  assumes "call_tool E = logged f"
  shows "while_loop fuel E st = Some (Inr fin) \<Longrightarrow> tally st \<Longrightarrow> tally fin"
proof (induction fuel arbitrary: st)
  case 0
  then show ?case by (simp split: if_splits)
next
  case (Suc k)
  show ?case
  proof (cases "stop_reason (response st) = ''tool_use''")
    case False
    with Suc.prems show ?thesis by simp
  next
    case True
    with Suc.prems obtain st' where b: "loop_body E st = Inr st'"
      and w: "while_loop k E st' = Some (Inr fin)"
      by (auto split: sum.splits)
    from loop_body_tally[OF assms b Suc.prems(2)] w show ?thesis by (rule Suc.IH[rotated])
  qed
qed

lemma agent_loop_Inr:
  assumes "agent_loop fuel E q tc t = Some (Inr (txt, tm, fin))"
  obtains st0 where "first_turn E q tc t = Inr st0" "while_loop fuel E st0 = Some (Inr fin)"
    "tm = tool_metrics fin" "txt = first_text (content (response fin))"
  using assms by (auto simp: agent_loop_def split: sum.splits option.splits)

lemma first_turn_state:
  assumes "first_turn E q tc t = Inr st0"
  shows "tool_metrics st0 = []" "tool_caller st0 = tc"
    "filter is_tool_result (messages st0) = []"
  using assms by (auto simp: first_turn_def Let_def split: sum.splits)

text \<open>
  Claim C5.  The block taken is the first tool-use block in content order, whatever follows
  it.  A turn whose response has stop reason \<^verbatim>\<open>tool_use\<close> runs the loop body once: it makes
  exactly one call to the tool caller, with the name and input of that block, appends exactly
  one tool-result message carrying that block's identifier, and calls the engine next on the
  conversation so extended.  Over a whole run the tool-result messages, the calls made and the
  calls counted in the metrics are equally many.
\<close>

theorem one_tool_per_turn:
  "(\<forall>pre i n a post. (\<forall>b \<in> set pre. \<not> is_tool_use b) \<longrightarrow>
        first_tool_use (pre @ ToolUseBlock i n a # post) = Some (i, n, a))
   \<and> (stop_reason (response st) = ''tool_use'' \<longrightarrow>
        while_loop (Suc fuel) E st =
          (case loop_body E st of Inl e \<Rightarrow> Some (Inl e) | Inr st' \<Rightarrow> while_loop fuel E st'))
   \<and> (\<forall>i n a tc calls st'.
        first_tool_use (content (response st)) = Some (i, n, a)
        \<and> call_tool E = logged f \<and> tool_caller st = (tc, calls)
        \<and> loop_body E st = Inr st' \<longrightarrow>
          snd (tool_caller st') = calls @ [(n, a)]
          \<and> (\<exists>txt r. messages st' = messages st @ [Message ''user'' (ToolResult i txt),
                                                   Message ''assistant'' (Blocks (content r))]
                \<and> engine E (messages st @ [Message ''user'' (ToolResult i txt)]) = Inr r
                \<and> response st' = r))
   \<and> (\<forall>txt tm fin.
        call_tool E = logged f \<and> agent_loop fuel E q (tc0, []) t = Some (Inr (txt, tm, fin)) \<longrightarrow>
          length (filter is_tool_result (messages fin)) = length (snd (tool_caller fin))
          \<and> int (length (snd (tool_caller fin))) = count_tool_calls tm)"
proof (intro conjI allI impI)
  fix pre i n a post
  assume "\<forall>b \<in> set pre. \<not> is_tool_use b"
  then show "first_tool_use (pre @ ToolUseBlock i n a # post) = Some (i, n, a)"
    by (rule first_tool_use_first)
next
  assume "stop_reason (response st) = ''tool_use''"
  then show "while_loop (Suc fuel) E st =
          (case loop_body E st of Inl e \<Rightarrow> Some (Inl e) | Inr st' \<Rightarrow> while_loop fuel E st')"
    by simp
next
  fix i n a tc calls st'
  assume h: "first_tool_use (content (response st)) = Some (i, n, a)
        \<and> call_tool E = logged f \<and> tool_caller st = (tc, calls)
        \<and> loop_body E st = Inr st'"
  then have 1: "call_tool E = logged f" and 2: "tool_caller st = (tc, calls)"
    and 3: "first_tool_use (content (response st)) = Some (i, n, a)"
    and 4: "loop_body E st = Inr st'" by simp_all
  show "snd (tool_caller st') = calls @ [(n, a)]"
    by (rule loop_body_logged(1)[OF 1 2 3 4])
  show "\<exists>txt r. messages st' = messages st @ [Message ''user'' (ToolResult i txt),
                                                   Message ''assistant'' (Blocks (content r))]
                \<and> engine E (messages st @ [Message ''user'' (ToolResult i txt)]) = Inr r
                \<and> response st' = r"
    by (rule loop_body_logged(2)[OF 1 2 3 4])
next
  fix body tm fin
  assume h: "call_tool E = logged f \<and> agent_loop fuel E q (tc0, []) t = Some (Inr (body, tm, fin))"
  then obtain st0 where f: "first_turn E q (tc0, []) t = Inr st0"
    and w: "while_loop fuel E st0 = Some (Inr fin)" and tm: "tm = tool_metrics fin"
    by (auto elim: agent_loop_Inr)
  from first_turn_state[OF f] have "tally st0"
    by (simp add: tally_def count_tool_calls_def)
  with while_loop_tally[of E f fuel st0 fin] h w have "tally fin" by blast
  with tm show "length (filter is_tool_result (messages fin)) = length (snd (tool_caller fin))"
    and "int (length (snd (tool_caller fin))) = count_tool_calls tm"
    by (simp_all add: tally_def)
qed

lemma demo_loop_body: "loop_body demo_collaborators demo_first = Inr demo_final"
  by (simp add: loop_body_def demo_first_def demo_final_def demo_collaborators_def demo_engine_def
      logged_def demo_tool_def tool_response_of_def error_response_def record_call_def Let_def
      demo_text_def)

theorem one_tool_per_turn_witness:
  "first_tool_use (content (response demo_first))
      = Some (''tu1'', ''add'', JObj [(''a'', JInt 1), (''b'', JInt 2)])
   \<and> snd (tool_caller demo_final) = [(''add'', JObj [(''a'', JInt 1), (''b'', JInt 2)])]"
proof -
  have c: "call_tool demo_collaborators = logged demo_tool"
    by (simp add: demo_collaborators_def)
  have t: "tool_caller demo_first = ((), [])" by (simp add: demo_first_def)
  from one_tool_per_turn[of demo_first 0 demo_collaborators demo_tool] demo_first_call c t
    demo_loop_body
  have "snd (tool_caller demo_final) = [] @ [(''add'', JObj [(''a'', JInt 1), (''b'', JInt 2)])]"
    by blast
  with demo_first_call show ?thesis by simp
qed

text \<open>
  Claim C9.  Every iteration keeps the metrics well formed (one entry per tool name, its count
  equal to the number of its durations and at least 1) and adds exactly one call; the update
  is the same whether the invocation failed or not.  So the metrics returned by the agent loop
  are well formed, and \<^verbatim>\<open>num_tool_calls\<close> is the sum of the lengths of the durations, which
  is the sum of the counts.
\<close>

theorem tool_metrics_invariant:
  "(\<forall>st'. metrics_ok (tool_metrics st) \<and> loop_body E st = Inr st' \<longrightarrow>
        metrics_ok (tool_metrics st')
        \<and> count_tool_calls (tool_metrics st') = count_tool_calls (tool_metrics st) + 1)
   \<and> (\<forall>i n a res tc2 st'.
        first_tool_use (content (response st)) = Some (i, n, a)
        \<and> call_tool E (tool_caller st) n a = (res, tc2) \<and> loop_body E st = Inr st' \<longrightarrow>
          tool_metrics st' = record_call (tool_metrics st) n
                               (time_time E (ticks st + 1) - time_time E (ticks st)))
   \<and> (\<forall>txt tm fin. agent_loop fuel E q tc t = Some (Inr (txt, tm, fin)) \<longrightarrow> metrics_ok tm)
   \<and> (\<forall>r tc' t'. evaluate_single_task fuel E qa tc t = Some (Inr (r, tc', t')) \<longrightarrow>
          metrics_ok (tool_calls r)
          \<and> num_tool_calls r = sum_list (map (\<lambda>(name, m). int (length (durations m))) (tool_calls r))
          \<and> num_tool_calls r = sum_list (map (\<lambda>(name, m). count m) (tool_calls r)))"
proof (intro conjI allI impI)
  fix st'
  assume h: "metrics_ok (tool_metrics st) \<and> loop_body E st = Inr st'"
  then obtain n d where "tool_metrics st' = record_call (tool_metrics st) n d"
    by (auto elim: loop_body_Inr)
  with h show "metrics_ok (tool_metrics st')"
    and "count_tool_calls (tool_metrics st') = count_tool_calls (tool_metrics st) + 1"
    by (simp_all add: record_call_ok record_call_total)
next
  fix i n a res tc2 st'
  assume "first_tool_use (content (response st)) = Some (i, n, a)
        \<and> call_tool E (tool_caller st) n a = (res, tc2) \<and> loop_body E st = Inr st'"
  then show "tool_metrics st' = record_call (tool_metrics st) n
                               (time_time E (ticks st + 1) - time_time E (ticks st))"
    by (auto elim!: loop_body_Inr)
next
  fix body tm fin
  assume "agent_loop fuel E q tc t = Some (Inr (body, tm, fin))"
  then obtain st0 where f: "first_turn E q tc t = Inr st0"
    and w: "while_loop fuel E st0 = Some (Inr fin)" and tm: "tm = tool_metrics fin"
    by (auto elim: agent_loop_Inr)
  from first_turn_state(1)[OF f] have "metrics_ok (tool_metrics st0)"
    by (simp add: metrics_ok_def)
  with w have "metrics_ok (tool_metrics fin)" by (rule while_loop_metrics_ok)
  with tm show "metrics_ok tm" by simp
next
  fix r tc' t'
  assume e: "evaluate_single_task fuel E qa tc t = Some (Inr (r, tc', t'))"
  then obtain body fin where a: "agent_loop fuel E (question qa) tc (t + 1)
        = Some (Inr (Some body, tool_calls r, fin))"
    and n: "num_tool_calls r = count_tool_calls (tool_calls r)"
    by (auto simp: evaluate_single_task_def Let_def split: option.splits sum.splits)
  from a obtain st0 where f: "first_turn E (question qa) tc (t + 1) = Inr st0"
    and w: "while_loop fuel E st0 = Some (Inr fin)" and tm: "tool_calls r = tool_metrics fin"
    by (auto elim: agent_loop_Inr)
  from first_turn_state(1)[OF f] have "metrics_ok (tool_metrics st0)"
    by (simp add: metrics_ok_def)
  with w have "metrics_ok (tool_metrics fin)" by (rule while_loop_metrics_ok)
  with tm show m: "metrics_ok (tool_calls r)" by simp
  from n show "num_tool_calls r = sum_list (map (\<lambda>(name, m). int (length (durations m))) (tool_calls r))"
    by (simp add: count_tool_calls_def)
  from n metrics_ok_counts[OF m]
  show "num_tool_calls r = sum_list (map (\<lambda>(name, m). count m) (tool_calls r))" by simp
qed

theorem tool_metrics_invariant_witness:
  "tool_metrics demo_first = [] \<and> metrics_ok (tool_metrics demo_final)
   \<and> count_tool_calls (tool_metrics demo_final) = 1
   \<and> tool_metrics demo_final = [(''add'', \<lparr>count = 1, durations = [1]\<rparr>)]"
proof -
  have m: "metrics_ok (tool_metrics demo_first)" and z: "tool_metrics demo_first = []"
    by (simp_all add: demo_first_def metrics_ok_def)
  from tool_metrics_invariant[of demo_first demo_collaborators] m demo_loop_body
  have "metrics_ok (tool_metrics demo_final)
     \<and> count_tool_calls (tool_metrics demo_final) = count_tool_calls (tool_metrics demo_first) + 1"
    by blast
  moreover have "tool_metrics demo_final = [(''add'', \<lparr>count = 1, durations = [1]\<rparr>)]"
    by (simp add: demo_final_def)
  ultimately show ?thesis using z by (simp add: count_tool_calls_def)
qed

section \<open>Properties of the process-backed tool callers\<close>

lemma running_update_proc:
  "running (update_proc w pid f) q =
     (q < length (procs w) \<and> (if q = pid then alive (f (procs w ! pid)) else alive (procs w ! q)))"
  by (auto simp: running_def update_proc_def)

lemma procs_update_proc: "procs (update_proc w pid f) = (procs w)[pid := f (procs w ! pid)]"
  by (simp add: update_proc_def)

lemma exchange_running:
  assumes "running w pid" and "dumps request = Inr s"
  shows "exchange dumps loads w pid request =
     (loads (reply (beh (procs w ! pid)) (stdin_log (procs w ! pid) @ [s @ [CHR 0x0A]])),
      update_proc w pid (\<lambda>p. p\<lparr>stdin_log := stdin_log p @ [s @ [CHR 0x0A]]\<rparr>))"
  using assms
  by (simp add: exchange_def stdin_write_def stdout_readline_def running_update_proc
      procs_update_proc running_def)

lemma raise_on_error_error:
  "map_of kvs ''error'' = Some v \<Longrightarrow> raise_on_error (JObj kvs) = Inl (RuntimeError v)"
  by (simp add: raise_on_error_def)

lemma raise_on_error_other:
  "\<not> (\<exists>kvs v. result = JObj kvs \<and> map_of kvs ''error'' = Some v)
     \<Longrightarrow> raise_on_error result = Inr result"
  by (cases result) (auto simp: raise_on_error_def split: option.splits)

text \<open>
  Claim C1, as amended.  A request is written as one line and the reply is the parsed line the
  child writes back.  When that reply is a mapping with the key \<^verbatim>\<open>"error"\<close>,
  \<^verbatim>\<open>StdioConnection.call_tool\<close> fails with a \<^verbatim>\<open>RuntimeError\<close> that carries the value under that
  key; for any other reply it returns the parsed value as it is.  \<^verbatim>\<open>ToolCaller.call_tool\<close>
  returns every parsed reply as it is, an error mapping included.
\<close>

theorem call_tool_error_reply:
  "(\<forall>s. running w pid \<and> dumps (call_tool_request tool_name arguments) = Inr s \<longrightarrow>
        exchange dumps loads w pid (call_tool_request tool_name arguments) =
          (loads (reply (beh (procs w ! pid)) (stdin_log (procs w ! pid) @ [s @ [CHR 0x0A]])),
           update_proc w pid (\<lambda>p. p\<lparr>stdin_log := stdin_log p @ [s @ [CHR 0x0A]]\<rparr>)))
   \<and> (\<forall>c1 w1 p w2 kvs v.
        ensure_running c w = (Inr (), c1, w1) \<and> process c1 = Some p
        \<and> exchange dumps loads w1 p (call_tool_request tool_name arguments) = (Inr (JObj kvs), w2)
        \<and> map_of kvs ''error'' = Some v \<longrightarrow>
          StdioConnection_call_tool dumps loads c w tool_name arguments
            = (Inl (RuntimeError v), c1, w2))
   \<and> (\<forall>c1 w1 p w2 result.
        ensure_running c w = (Inr (), c1, w1) \<and> process c1 = Some p
        \<and> exchange dumps loads w1 p (call_tool_request tool_name arguments) = (Inr result, w2)
        \<and> \<not> (\<exists>kvs v. result = JObj kvs \<and> map_of kvs ''error'' = Some v) \<longrightarrow>
          StdioConnection_call_tool dumps loads c w tool_name arguments = (Inr result, c1, w2))
   \<and> (\<forall>p w2 result.
        tc_process tc = Some p
        \<and> exchange dumps loads w p (call_tool_request tool_name arguments) = (Inr result, w2) \<longrightarrow>
          ToolCaller_call_tool dumps loads tc w tool_name arguments = (Inr result, tc, w2))"
proof (intro conjI allI impI)
  fix s
  assume "running w pid \<and> dumps (call_tool_request tool_name arguments) = Inr s"
  then show "exchange dumps loads w pid (call_tool_request tool_name arguments) =
          (loads (reply (beh (procs w ! pid)) (stdin_log (procs w ! pid) @ [s @ [CHR 0x0A]])),
           update_proc w pid (\<lambda>p. p\<lparr>stdin_log := stdin_log p @ [s @ [CHR 0x0A]]\<rparr>))"
    using exchange_running by blast
next
  fix c1 w1 p w2 kvs v
  assume "ensure_running c w = (Inr (), c1, w1) \<and> process c1 = Some p
        \<and> exchange dumps loads w1 p (call_tool_request tool_name arguments) = (Inr (JObj kvs), w2)
        \<and> map_of kvs ''error'' = Some v"
  then show "StdioConnection_call_tool dumps loads c w tool_name arguments
            = (Inl (RuntimeError v), c1, w2)"
    by (simp add: StdioConnection_call_tool_def raise_on_error_error)
next
  fix c1 w1 p w2 result
  assume "ensure_running c w = (Inr (), c1, w1) \<and> process c1 = Some p
        \<and> exchange dumps loads w1 p (call_tool_request tool_name arguments) = (Inr result, w2)
        \<and> \<not> (\<exists>kvs v. result = JObj kvs \<and> map_of kvs ''error'' = Some v)"
  then show "StdioConnection_call_tool dumps loads c w tool_name arguments = (Inr result, c1, w2)"
    by (simp add: StdioConnection_call_tool_def raise_on_error_other)
next
  fix p w2 result
  assume "tc_process tc = Some p
        \<and> exchange dumps loads w p (call_tool_request tool_name arguments) = (Inr result, w2)"
  then show "ToolCaller_call_tool dumps loads tc w tool_name arguments = (Inr result, tc, w2)"
    by (simp add: ToolCaller_call_tool_def)
qed

lemma demo_ensure:
  "ensure_running demo_connection demo_world
     = (Inr (), demo_connection\<lparr>process := Some 0\<rparr>, demo_ensured)"
  by (simp add: ensure_running_def demo_connection_def demo_world_def Popen_def demo_program_def
      merged_env_def demo_ensured_def demo_child_def)

lemma demo_start:
  "ToolCaller_start demo_tool_caller demo_world
     = (Inr (), demo_tool_caller\<lparr>tc_process := Some 0\<rparr>, demo_started)"
  by (simp add: ToolCaller_start_def demo_tool_caller_def demo_world_def Popen_def
      demo_program_def demo_started_def demo_child_def)

lemma demo_exchange:
  "fst (exchange demo_dumps demo_loads demo_ensured 0 (call_tool_request ''add'' (JObj [])))
     = Inr (JObj [(''error'', JStr ''bad args'')])"
  "fst (exchange demo_dumps demo_loads demo_started 0 (call_tool_request ''add'' (JObj [])))
     = Inr (JObj [(''error'', JStr ''bad args'')])"
  by (simp_all add: exchange_def demo_dumps_def demo_loads_def stdin_write_def stdout_readline_def
      running_def update_proc_def demo_ensured_def demo_started_def demo_world_def demo_child_def
      demo_behaviour_def)

lemma demo_ensure_stubborn:
  "ensure_running (demo_connection\<lparr>args := [''stubborn.py'']\<rparr>) demo_world
     = (Inr (), demo_connection\<lparr>args := [''stubborn.py''], process := Some 0\<rparr>,
        demo_world\<lparr>procs := [demo_child (demo_environ ++ [''MODE'' \<mapsto> ''test'']) demo_stubborn
                              [''python'', ''stubborn.py'']]\<rparr>)"
  by (simp add: ensure_running_def demo_connection_def demo_world_def Popen_def demo_program_def
      merged_env_def demo_child_def)

lemma demo_exchange_stubborn:
  "fst (exchange demo_dumps demo_loads
         (demo_world\<lparr>procs := [demo_child (demo_environ ++ [''MODE'' \<mapsto> ''test'']) demo_stubborn
                              [''python'', ''stubborn.py'']]\<rparr>) 0
         (call_tool_request ''add'' (JObj [(''a'', JInt 1), (''b'', JInt 2)])))
     = Inr (JObj [(''result'', JInt 3)])"
  by (simp add: exchange_def demo_dumps_def demo_loads_def stdin_write_def stdout_readline_def
      running_def update_proc_def demo_world_def demo_child_def demo_stubborn_def)

theorem call_tool_error_reply_witness:
  "fst (StdioConnection_call_tool demo_dumps demo_loads demo_connection demo_world ''add'' (JObj []))
     = Inl (RuntimeError (JStr ''bad args''))
   \<and> fst (StdioConnection_call_tool demo_dumps demo_loads
             (demo_connection\<lparr>args := [''stubborn.py'']\<rparr>) demo_world ''add''
             (JObj [(''a'', JInt 1), (''b'', JInt 2)]))
     = Inr (JObj [(''result'', JInt 3)])"
proof -
  let ?x = "exchange demo_dumps demo_loads demo_ensured 0 (call_tool_request ''add'' (JObj []))"
  have e: "?x = (Inr (JObj [(''error'', JStr ''bad args'')]), snd ?x)"
    using demo_exchange(1) by (simp add: prod_eq_iff)
  have p: "process (demo_connection\<lparr>process := Some 0\<rparr>) = Some 0" by simp
  have m: "map_of [(''error'', JStr ''bad args'')] ''error'' = Some (JStr ''bad args'')" by simp
  from call_tool_error_reply[where c = demo_connection and w = demo_world
      and dumps = demo_dumps and loads = demo_loads and tool_name = "''add''"
      and arguments = "JObj []"] demo_ensure e p m
  have a: "StdioConnection_call_tool demo_dumps demo_loads demo_connection demo_world ''add'' (JObj [])
      = (Inl (RuntimeError (JStr ''bad args'')), demo_connection\<lparr>process := Some 0\<rparr>, snd ?x)"
    by blast
  let ?w = "demo_world\<lparr>procs := [demo_child (demo_environ ++ [''MODE'' \<mapsto> ''test''])
      demo_stubborn [''python'', ''stubborn.py'']]\<rparr>"
  let ?q = "call_tool_request ''add'' (JObj [(''a'', JInt 1), (''b'', JInt 2)])"
  let ?y = "exchange demo_dumps demo_loads ?w 0 ?q"
  have h: "ensure_running (demo_connection\<lparr>args := [''stubborn.py'']\<rparr>) demo_world
         = (Inr (), demo_connection\<lparr>args := [''stubborn.py''], process := Some 0\<rparr>, ?w)
      \<and> process (demo_connection\<lparr>args := [''stubborn.py''], process := Some 0\<rparr>) = Some 0
      \<and> ?y = (Inr (JObj [(''result'', JInt 3)]), snd ?y)
      \<and> \<not> (\<exists>kvs v. JObj [(''result'', JInt 3)] = JObj kvs \<and> map_of kvs ''error'' = Some v)"
    using demo_ensure_stubborn demo_exchange_stubborn by (auto simp: prod_eq_iff)
  from call_tool_error_reply[where c = "demo_connection\<lparr>args := [''stubborn.py'']\<rparr>"
      and w = demo_world and dumps = demo_dumps and loads = demo_loads and tool_name = "''add''"
      and arguments = "JObj [(''a'', JInt 1), (''b'', JInt 2)]",
      THEN conjunct2, THEN conjunct2, THEN conjunct1, rule_format, OF h]
  have b: "StdioConnection_call_tool demo_dumps demo_loads
             (demo_connection\<lparr>args := [''stubborn.py'']\<rparr>) demo_world ''add''
             (JObj [(''a'', JInt 1), (''b'', JInt 2)])
      = (Inr (JObj [(''result'', JInt 3)]),
         demo_connection\<lparr>args := [''stubborn.py''], process := Some 0\<rparr>, snd ?y)" .
  from a b show ?thesis by simp
qed

text \<open>
  Claim C1 as stated, for every process-backed backend, fails on \<^verbatim>\<open>ToolCaller\<close>: started on a
  server that replies with an error mapping, its \<^verbatim>\<open>call_tool\<close> returns the mapping.
\<close>

theorem call_tool_verbatim_counterexample:
  "ToolCaller_start demo_tool_caller demo_world
     = (Inr (), demo_tool_caller\<lparr>tc_process := Some 0\<rparr>, demo_started)
   \<and> fst (ToolCaller_call_tool demo_dumps demo_loads (demo_tool_caller\<lparr>tc_process := Some 0\<rparr>)
            demo_started ''add'' (JObj []))
     = Inr (JObj [(''error'', JStr ''bad args'')])"
proof -
  let ?x = "exchange demo_dumps demo_loads demo_started 0 (call_tool_request ''add'' (JObj []))"
  have "ToolCaller_call_tool demo_dumps demo_loads (demo_tool_caller\<lparr>tc_process := Some 0\<rparr>)
            demo_started ''add'' (JObj []) = (fst ?x, demo_tool_caller\<lparr>tc_process := Some 0\<rparr>, snd ?x)"
    by (simp add: ToolCaller_call_tool_def split: prod.split)
  with demo_exchange(2) demo_start show ?thesis by simp
qed

lemma update_proc_twice:
  "pid < length (procs w) \<Longrightarrow>
     update_proc (update_proc w pid f) pid g = update_proc w pid (\<lambda>p. g (f p))"
  by (simp add: update_proc_def)

lemma wait_graceful:
  assumes "running w pid" and "SIGTERM \<in> set (signals (procs w ! pid))"
  shows "wait w pid (Some 5) =
     (if SIGKILL \<in> set (signals (procs w ! pid))
         \<or> (\<exists>d. term_delay (beh (procs w ! pid)) = Some d \<and> d \<le> 5)
      then Some (Inr (), update_proc w pid (\<lambda>p. p\<lparr>alive := False\<rparr>))
      else Some (Inl TimeoutExpired, w))"
  using assms by (auto simp: wait_def Let_def split: option.splits)

lemma wait_killed:
  assumes "running w pid" and "SIGKILL \<in> set (signals (procs w ! pid))"
  shows "wait w pid None = Some (Inr (), update_proc w pid (\<lambda>p. p\<lparr>alive := False\<rparr>))"
  using assms by (simp add: wait_def Let_def)

lemma stop_process_live:
  assumes "running w pid"
  shows "stop_process (Some pid) w = Some (Inr (), update_proc w pid stopped_proc)"
proof -
  from assms have len: "pid < length (procs w)" and al: "alive (procs w ! pid)"
    by (simp_all add: running_def)
  let ?p = "procs w ! pid"
  let ?w1 = "terminate w pid"
  have w1: "?w1 = update_proc w pid (\<lambda>p. p\<lparr>signals := signals p @ [SIGTERM]\<rparr>)"
    using assms by (simp add: terminate_def send_signal_def)
  have r1: "running ?w1 pid" unfolding w1 running_update_proc using len al by simp
  have p1: "procs ?w1 ! pid = ?p\<lparr>signals := signals ?p @ [SIGTERM]\<rparr>"
    using len by (simp add: w1 procs_update_proc)
  have t1: "SIGTERM \<in> set (signals (procs ?w1 ! pid))" by (simp add: p1)
  show ?thesis
  proof (cases "graceful ?p")
    case True
    then have "wait ?w1 pid (Some 5) = Some (Inr (), update_proc ?w1 pid (\<lambda>p. p\<lparr>alive := False\<rparr>))"
      using wait_graceful[OF r1 t1] by (simp add: p1 graceful_def)
    moreover have "update_proc ?w1 pid (\<lambda>p. p\<lparr>alive := False\<rparr>)
        = update_proc w pid (\<lambda>p. p\<lparr>signals := signals p @ [SIGTERM]\<rparr>\<lparr>alive := False\<rparr>)"
      unfolding w1 using len by (rule update_proc_twice)
    moreover have "update_proc w pid (\<lambda>p. p\<lparr>signals := signals p @ [SIGTERM]\<rparr>\<lparr>alive := False\<rparr>)
        = update_proc w pid stopped_proc"
      using True by (simp add: update_proc_def stopped_proc_def)
    ultimately show ?thesis using assms by (simp add: stop_process_def)
  next
    case False
    then have a: "wait ?w1 pid (Some 5) = Some (Inl TimeoutExpired, ?w1)"
      using wait_graceful[OF r1 t1] by (simp add: p1 graceful_def)
    let ?w2 = "kill ?w1 pid"
    have w2: "?w2 = update_proc ?w1 pid (\<lambda>p. p\<lparr>signals := signals p @ [SIGKILL]\<rparr>)"
      using r1 by (simp add: kill_def send_signal_def)
    have len1: "pid < length (procs ?w1)" and al1: "alive (procs ?w1 ! pid)"
      using r1 by (simp_all add: running_def)
    have r2: "running ?w2 pid" unfolding w2 running_update_proc using len1 al1 by simp
    have k2: "SIGKILL \<in> set (signals (procs ?w2 ! pid))"
      using len1 by (simp add: w2 procs_update_proc)
    have b: "wait ?w2 pid None = Some (Inr (), update_proc ?w2 pid (\<lambda>p. p\<lparr>alive := False\<rparr>))"
      by (rule wait_killed[OF r2 k2])
    have "update_proc ?w2 pid (\<lambda>p. p\<lparr>alive := False\<rparr>)
        = update_proc ?w1 pid (\<lambda>p. p\<lparr>signals := signals p @ [SIGKILL]\<rparr>\<lparr>alive := False\<rparr>)"
      unfolding w2 using len1 by (rule update_proc_twice)
    also have "\<dots> = update_proc w pid
        (\<lambda>p. p\<lparr>signals := signals p @ [SIGTERM]\<rparr>\<lparr>signals := signals (p\<lparr>signals := signals p @ [SIGTERM]\<rparr>) @ [SIGKILL]\<rparr>\<lparr>alive := False\<rparr>)"
      unfolding w1 using len by (rule update_proc_twice)
    also have "\<dots> = update_proc w pid stopped_proc"
      using False by (simp add: update_proc_def stopped_proc_def)
    finally have "update_proc ?w2 pid (\<lambda>p. p\<lparr>alive := False\<rparr>) = update_proc w pid stopped_proc" .
    with a b show ?thesis using assms by (simp add: stop_process_def)
  qed
qed

lemma stop_process_idle:
  assumes "h = None \<or> (\<exists>pid. h = Some pid \<and> \<not> running w pid)"
  shows "stop_process h w = Some (Inr (), w)"
  using assms by (auto simp: stop_process_def)

lemma stop_process_returns:
  "\<exists>w'. stop_process h w = Some (Inr (), w')
        \<and> (\<forall>q. running w' q \<longleftrightarrow> running w q \<and> h \<noteq> Some q)"
proof (cases "\<exists>pid. h = Some pid \<and> running w pid")
  case True
  then obtain pid where h: "h = Some pid" and r: "running w pid" by blast
  have "running (update_proc w pid stopped_proc) q \<longleftrightarrow> running w q \<and> pid \<noteq> q" for q
    unfolding running_update_proc by (auto simp: stopped_proc_def running_def)
  with stop_process_live[OF r] h show ?thesis by simp
next
  case False
  then have "h = None \<or> (\<exists>pid. h = Some pid \<and> \<not> running w pid)" by (cases h) auto
  from stop_process_idle[OF this] False show ?thesis by auto
qed

lemma stopped_proc_signals:
  "signals (stopped_proc p) = signals p @ (if graceful p then [SIGTERM] else [SIGTERM, SIGKILL])"
  "alive (stopped_proc p) = False"
  by (simp_all add: stopped_proc_def)

text \<open>
  Claim C8, for \<^verbatim>\<open>StdioConnection.stop\<close> and \<^verbatim>\<open>ToolCaller.stop\<close>.  Without a handle, or with a
  child that has exited, the system is left as it is.  A running child is sent \<^verbatim>\<open>SIGTERM\<close>;
  when it exits within the 5 seconds of the wait that is all, and otherwise it is sent
  \<^verbatim>\<open>SIGKILL\<close> and waited for; either way it is no longer running.  In every case \<^verbatim>\<open>stop\<close>
  returns, without an exception, and the handle is \<^verbatim>\<open>None\<close> afterwards.
\<close>

theorem stop_always_returns:
  "(process c = None \<or> (\<exists>pid. process c = Some pid \<and> \<not> running w pid) \<longrightarrow>
        StdioConnection_stop c w = Some (Inr (), c\<lparr>process := None\<rparr>, w))
   \<and> (tc_process tc = None \<or> (\<exists>pid. tc_process tc = Some pid \<and> \<not> running w pid) \<longrightarrow>
        ToolCaller_stop tc w = Some (Inr (), tc\<lparr>tc_process := None\<rparr>, w))
   \<and> (\<forall>pid. process c = Some pid \<and> running w pid \<longrightarrow>
        StdioConnection_stop c w
          = Some (Inr (), c\<lparr>process := None\<rparr>, update_proc w pid stopped_proc))
   \<and> (\<forall>pid. tc_process tc = Some pid \<and> running w pid \<longrightarrow>
        ToolCaller_stop tc w
          = Some (Inr (), tc\<lparr>tc_process := None\<rparr>, update_proc w pid stopped_proc))
   \<and> (\<forall>pid. running w pid \<longrightarrow>
        \<not> running (update_proc w pid stopped_proc) pid
        \<and> signals (procs (update_proc w pid stopped_proc) ! pid) =
            signals (procs w ! pid)
              @ (if SIGKILL \<in> set (signals (procs w ! pid))
                    \<or> (\<exists>d. term_delay (beh (procs w ! pid)) = Some d \<and> d \<le> 5)
                 then [SIGTERM] else [SIGTERM, SIGKILL]))
   \<and> (\<exists>w'. StdioConnection_stop c w = Some (Inr (), c\<lparr>process := None\<rparr>, w'))
   \<and> (\<exists>w'. ToolCaller_stop tc w = Some (Inr (), tc\<lparr>tc_process := None\<rparr>, w'))"
proof (intro conjI allI impI)
  assume "process c = None \<or> (\<exists>pid. process c = Some pid \<and> \<not> running w pid)"
  from stop_process_idle[OF this]
  show "StdioConnection_stop c w = Some (Inr (), c\<lparr>process := None\<rparr>, w)"
    by (simp add: StdioConnection_stop_def)
next
  assume "tc_process tc = None \<or> (\<exists>pid. tc_process tc = Some pid \<and> \<not> running w pid)"
  from stop_process_idle[OF this]
  show "ToolCaller_stop tc w = Some (Inr (), tc\<lparr>tc_process := None\<rparr>, w)"
    by (simp add: ToolCaller_stop_def)
next
  fix pid
  assume "process c = Some pid \<and> running w pid"
  with stop_process_live[of w pid]
  show "StdioConnection_stop c w
          = Some (Inr (), c\<lparr>process := None\<rparr>, update_proc w pid stopped_proc)"
    by (simp add: StdioConnection_stop_def)
next
  fix pid
  assume "tc_process tc = Some pid \<and> running w pid"
  with stop_process_live[of w pid]
  show "ToolCaller_stop tc w
          = Some (Inr (), tc\<lparr>tc_process := None\<rparr>, update_proc w pid stopped_proc)"
    by (simp add: ToolCaller_stop_def)
next
  fix pid
  assume r: "running w pid"
  then show "\<not> running (update_proc w pid stopped_proc) pid"
    by (simp add: running_update_proc stopped_proc_signals)
  from r have "pid < length (procs w)" by (simp add: running_def)
  then show "signals (procs (update_proc w pid stopped_proc) ! pid) =
            signals (procs w ! pid)
              @ (if SIGKILL \<in> set (signals (procs w ! pid))
                    \<or> (\<exists>d. term_delay (beh (procs w ! pid)) = Some d \<and> d \<le> 5)
                 then [SIGTERM] else [SIGTERM, SIGKILL])"
    by (simp add: procs_update_proc stopped_proc_signals graceful_def)
next
  from stop_process_returns[of "process c" w]
  show "\<exists>w'. StdioConnection_stop c w = Some (Inr (), c\<lparr>process := None\<rparr>, w')"
    by (auto simp: StdioConnection_stop_def)
next
  from stop_process_returns[of "tc_process tc" w]
  show "\<exists>w'. ToolCaller_stop tc w = Some (Inr (), tc\<lparr>tc_process := None\<rparr>, w')"
    by (auto simp: ToolCaller_stop_def)
qed

theorem stop_always_returns_witness:
  "map_option (\<lambda>(r, c', w'). (r, process c', signals (procs w' ! 0), running w' 0))
     (StdioConnection_stop (demo_connection\<lparr>process := Some 0\<rparr>) demo_ensured)
     = Some (Inr (), None, [SIGTERM], False)
   \<and> map_option (\<lambda>(r, c', w'). (r, tc_process c', signals (procs w' ! 0), running w' 0))
     (ToolCaller_stop (demo_tool_caller\<lparr>tc_process := Some 0\<rparr>) demo_stubborn_world)
     = Some (Inr (), None, [SIGTERM, SIGKILL], False)"
proof -
  have r1: "process (demo_connection\<lparr>process := Some 0\<rparr>) = Some 0 \<and> running demo_ensured 0"
    by (simp add: running_def demo_ensured_def demo_child_def)
  have r2: "tc_process (demo_tool_caller\<lparr>tc_process := Some 0\<rparr>) = Some 0
      \<and> running demo_stubborn_world 0"
    by (simp add: running_def demo_stubborn_world_def demo_child_def)
  note t = stop_always_returns[of "demo_connection\<lparr>process := Some 0\<rparr>" demo_ensured
      "demo_tool_caller\<lparr>tc_process := Some 0\<rparr>"]
  from t r1 have a: "StdioConnection_stop (demo_connection\<lparr>process := Some 0\<rparr>) demo_ensured
      = Some (Inr (), demo_connection\<lparr>process := Some 0\<rparr>\<lparr>process := None\<rparr>,
              update_proc demo_ensured 0 stopped_proc)"
    by blast
  note u = stop_always_returns[of "demo_connection" demo_stubborn_world
      "demo_tool_caller\<lparr>tc_process := Some 0\<rparr>"]
  from u r2 have b: "ToolCaller_stop (demo_tool_caller\<lparr>tc_process := Some 0\<rparr>) demo_stubborn_world
      = Some (Inr (), demo_tool_caller\<lparr>tc_process := Some 0\<rparr>\<lparr>tc_process := None\<rparr>,
              update_proc demo_stubborn_world 0 stopped_proc)"
    by blast
  have g1: "graceful (demo_child (demo_environ ++ [''MODE'' \<mapsto> ''test'']) demo_behaviour
                              [''python'', ''server.py''])"
    by (simp add: graceful_def demo_child_def demo_behaviour_def)
  have g2: "\<not> graceful (demo_child demo_environ demo_stubborn [''python'', ''stubborn.py''])"
    by (simp add: graceful_def demo_child_def demo_stubborn_def)
  show ?thesis
    unfolding a b
    using g1 g2
    by (simp add: update_proc_def stopped_proc_def demo_ensured_def demo_stubborn_world_def
        demo_child_def running_def)
qed

lemma running_update_same:
  assumes "\<And>p. alive (f p) = alive p"
  shows "running (update_proc w pid f) q = running w q"
proof -
  have "running (update_proc w pid f) q =
      (q < length (procs w) \<and> (if q = pid then alive (f (procs w ! pid)) else alive (procs w ! q)))"
    by (rule running_update_proc)
  also have "\<dots> = (q < length (procs w) \<and> alive (procs w ! q))"
    by (simp add: assms)
  also have "\<dots> = running w q" by (simp add: running_def)
  finally show ?thesis .
qed

lemma running_after_exit:
  "running (update_proc w pid (\<lambda>p. p\<lparr>alive := False\<rparr>)) q \<Longrightarrow> running w q"
  by (cases "pid = q") (auto simp: running_def update_proc_def)

lemma exchange_keeps:
  assumes "exchange dumps loads w pid request = (r, w')"
  shows "running w' q = running w q"
proof -
  from assms have "w' = w \<or> w' = update_proc w pid (\<lambda>p. p\<lparr>stdin_log := stdin_log p @
      [projr (dumps request) @ [CHR 0x0A]]\<rparr>)"
    by (auto simp: exchange_def stdin_write_def split: sum.splits if_splits)
  then show "running w' q = running w q"
    by (auto simp: running_update_same)
qed

lemma ensure_running_live:
  assumes "process c = Some pid" and "running w pid"
  shows "ensure_running c w = (Inr (), c, w)"
  using assms by (simp add: ensure_running_def)

lemma ensure_running_spawn:
  assumes "\<not> (\<exists>pid. process c = Some pid \<and> running w pid)"
    and "ensure_running c w = (Inr (), c', w')"
  shows "\<exists>b. program w (command c # args c) (os_environ w ++ env c) (working_dir c) = Some b
          \<and> procs w' = procs w @
              [\<lparr>argv = command c # args c, penv = os_environ w ++ env c, cwd = working_dir c,
                alive = True, stdin_log = [], signals = [], beh = b\<rparr>]
          \<and> c' = c\<lparr>process := Some (length (procs w))\<rparr>"
proof -
  from assms(1) have cond: "(case process c of None \<Rightarrow> True | Some pid \<Rightarrow> \<not> running w pid)"
    by (cases "process c") auto
  with assms(2) show ?thesis
    by (auto simp: ensure_running_def merged_env_def Popen_def split: option.splits)
qed

lemma ensure_running_failed:
  assumes "ensure_running c w = (Inl x, c', w')"
  shows "c' = c \<and> w' = w"
  using assms
  by (auto simp: ensure_running_def Popen_def split: option.splits if_splits)

lemma ensure_running_owns:
  assumes "owns c w" and "ensure_running c w = (r, c', w')"
  shows "owns c' w'"
proof (cases "\<exists>pid. process c = Some pid \<and> running w pid")
  case True
  then obtain pid where "process c = Some pid" "running w pid" by (elim exE conjE)
  then have "ensure_running c w = (Inr (), c, w)" by (rule ensure_running_live)
  with assms(2) have "c' = c" "w' = w" by simp_all
  with assms(1) show ?thesis by simp
next
  case False
  have none: "\<not> running w q" for q
  proof
    assume "running w q"
    with assms(1) have "process c = Some q" by (simp add: owns_def)
    with \<open>running w q\<close> False show False by simp
  qed
  show ?thesis
  proof (cases r)
    case (Inl x)
    with assms(2) have "ensure_running c w = (Inl x, c', w')" by simp
    then have "c' = c \<and> w' = w" by (rule ensure_running_failed)
    with assms(1) show ?thesis by simp
  next
    case (Inr u)
    with assms(2) have "ensure_running c w = (Inr (), c', w')" by simp
    from ensure_running_spawn[OF False this] obtain b where
      p: "procs w' = procs w @
              [\<lparr>argv = command c # args c, penv = os_environ w ++ env c, cwd = working_dir c,
                alive = True, stdin_log = [], signals = [], beh = b\<rparr>]"
      and c': "c' = c\<lparr>process := Some (length (procs w))\<rparr>"
      by (elim exE conjE)
    have "process c' = Some q" if rq: "running w' q" for q
    proof (cases "q < length (procs w)")
      case True
      with rq p have "running w q" by (simp add: running_def nth_append)
      with none show ?thesis by simp
    next
      case False
      with rq p have "q = length (procs w)" by (simp add: running_def)
      with c' show ?thesis by simp
    qed
    then show ?thesis by (simp add: owns_def)
  qed
qed

lemma list_tools_owns:
  assumes "owns c w" and "StdioConnection_list_tools dumps loads c w = (r, c', w')"
  shows "owns c' w'"
proof -
  obtain r1 c1 w1 where e: "ensure_running c w = (r1, c1, w1)" by (cases "ensure_running c w")
  from ensure_running_owns[OF assms(1) e] have o: "owns c1 w1" .
  show ?thesis
  proof (cases r1)
    case (Inl x)
    with e assms(2) o show ?thesis by (simp add: StdioConnection_list_tools_def)
  next
    case (Inr u)
    show ?thesis
    proof (cases "process c1")
      case None
      with Inr e assms(2) o show ?thesis by (simp add: StdioConnection_list_tools_def)
    next
      case (Some pid)
      obtain r2 w2 where x: "exchange dumps loads w1 pid list_tools_request = (r2, w2)"
        by (cases "exchange dumps loads w1 pid list_tools_request")
      with Some Inr e assms(2) have "c' = c1" "w' = w2"
        by (simp_all add: StdioConnection_list_tools_def)
      with o exchange_keeps[OF x] show ?thesis by (simp add: owns_def)
    qed
  qed
qed

lemma call_tool_owns:
  assumes "owns c w"
    and "StdioConnection_call_tool dumps loads c w tool_name arguments = (r, c', w')"
  shows "owns c' w'"
proof -
  obtain r1 c1 w1 where e: "ensure_running c w = (r1, c1, w1)" by (cases "ensure_running c w")
  from ensure_running_owns[OF assms(1) e] have o: "owns c1 w1" .
  show ?thesis
  proof (cases r1)
    case (Inl x)
    with e assms(2) o show ?thesis by (simp add: StdioConnection_call_tool_def)
  next
    case (Inr u)
    show ?thesis
    proof (cases "process c1")
      case None
      with Inr e assms(2) o show ?thesis by (simp add: StdioConnection_call_tool_def)
    next
      case (Some pid)
      obtain r2 w2 where x: "exchange dumps loads w1 pid (call_tool_request tool_name arguments)
          = (r2, w2)"
        by (cases "exchange dumps loads w1 pid (call_tool_request tool_name arguments)")
      with Some Inr e assms(2) have "c' = c1" "w' = w2"
        by (auto simp: StdioConnection_call_tool_def split: sum.splits)
      with o exchange_keeps[OF x] show ?thesis by (simp add: owns_def)
    qed
  qed
qed

lemma stop_owns:
  assumes "StdioConnection_stop c w = Some (r, c', w')"
  shows "owns c w \<Longrightarrow> owns c' w'"
proof -
  assume o: "owns c w"
  from stop_process_returns[of "process c" w] obtain w1 where
    s: "stop_process (process c) w = Some (Inr (), w1)"
    and k: "\<And>q. running w1 q \<longleftrightarrow> running w q \<and> process c \<noteq> Some q" by blast
  from s assms have "w' = w1" by (simp add: StdioConnection_stop_def)
  with k o show ?thesis by (auto simp: owns_def)
qed

lemma reachable_owns: "(c, w) \<in> reachable dumps loads \<Longrightarrow> owns c w"
proof (induction rule: reachable.induct)
  case (created c w)
  then show ?case by (simp add: owns_def running_def)
next
  case (ensured c w r c' w')
  from ensured.IH ensured.hyps(2) show ?case by (rule ensure_running_owns)
next
  case (listed c w r c' w')
  from listed.IH listed.hyps(2) show ?case by (rule list_tools_owns)
next
  case (called c w tool_name arguments r c' w')
  from called.IH called.hyps(2) show ?case by (rule call_tool_owns)
next
  case (stopped c w r c' w')
  from stopped.hyps(2) stopped.IH show ?case by (rule stop_owns)
next
  case (child_exit c w pid)
  show ?case unfolding owns_def
  proof (intro allI impI)
    fix q
    assume "running (update_proc w pid (\<lambda>p. p\<lparr>alive := False\<rparr>)) q"
    then have "running w q" by (rule running_after_exit)
    with child_exit.IH show "process c = Some q" by (simp add: owns_def)
  qed
qed

lemma at_most_one:
  assumes "\<And>i j. i < length xs \<Longrightarrow> j < length xs \<Longrightarrow> P (xs ! i) \<Longrightarrow> P (xs ! j) \<Longrightarrow> i = j"
  shows "length (filter P xs) \<le> 1"
  using assms
proof (induction xs)
  case Nil
  show ?case by simp
next
  case (Cons x xs)
  have tl: "length (filter P xs) \<le> 1"
  proof (rule Cons.IH)
    fix i j
    assume "i < length xs" "j < length xs" "P (xs ! i)" "P (xs ! j)"
    with Cons.prems[of "Suc i" "Suc j"] show "i = j" by simp
  qed
  show ?case
  proof (cases "P x")
    case False
    with tl show ?thesis by simp
  next
    case True
    have "\<not> P y" if "y \<in> set xs" for y
    proof
      assume "P y"
      from that obtain i where "i < length xs" "xs ! i = y" by (auto simp: in_set_conv_nth)
      with Cons.prems[of 0 "Suc i"] True \<open>P y\<close> show False by simp
    qed
    then have "filter P xs = []" by (simp add: filter_empty_conv)
    with True show ?thesis by simp
  qed
qed

lemma owns_one_live:
  assumes "owns c w"
  shows "length (filter alive (procs w)) \<le> 1"
proof (rule at_most_one)
  fix i j
  assume "i < length (procs w)" "j < length (procs w)" "alive (procs w ! i)" "alive (procs w ! j)"
  then have ri: "running w i" and rj: "running w j" by (simp_all add: running_def)
  note o = assms[unfolded owns_def, rule_format]
  from o[OF ri] o[OF rj] show "i = j" by simp
qed

lemma ensure_running_dead:
  assumes "process c = None \<or> (\<exists>pid. process c = Some pid \<and> \<not> running w pid)"
    and "program w (command c # args c) (os_environ w ++ env c) (working_dir c) = Some b"
  shows "ensure_running c w =
     (Inr (), c\<lparr>process := Some (length (procs w))\<rparr>,
      w\<lparr>procs := procs w @
           [\<lparr>argv = command c # args c, penv = os_environ w ++ env c, cwd = working_dir c,
             alive = True, stdin_log = [], signals = [], beh = b\<rparr>]\<rparr>)"
proof -
  from assms(1) have "(case process c of None \<Rightarrow> True | Some pid \<Rightarrow> \<not> running w pid)"
    by (cases "process c") auto
  with assms(2) show ?thesis
    by (simp add: ensure_running_def Popen_def merged_env_def)
qed

lemma run_enter_always:
  assumes "program w (sr_command r # sr_args r) (os_environ w ++ sr_env r) (sr_working_dir r)
      = Some b"
  shows "ServerRunner_run_enter r w =
     Some (Inr (length (procs w)), r\<lparr>sr_process := Some (length (procs w))\<rparr>,
           w\<lparr>procs := procs w @
             [\<lparr>argv = sr_command r # sr_args r, penv = os_environ w ++ sr_env r,
               cwd = sr_working_dir r, alive = True, stdin_log = [], signals = [], beh = b\<rparr>]\<rparr>)"
  using assms by (simp add: ServerRunner_run_enter_def Popen_def merged_env_def)

text \<open>
  Claim C7, as amended.  In every state a \<^verbatim>\<open>StdioConnection\<close> can reach, each running child
  is the one the connection holds, so at most one child is running.  \<^verbatim>\<open>_ensure_running\<close> with
  a running child changes nothing.  Without a running child, and with a command that can be
  started, it succeeds and adds exactly one child; whenever it succeeds so, the child's
  command line is the command followed by the arguments, its environment is the environment
  of the parent overridden by the configured one (a configured key wins, any other key keeps
  the parent's value), and its working directory is the configured one.
  \<^verbatim>\<open>ServerRunner.run\<close> has no such guard: with a command that can be started, every entry
  adds one running child with that command line, environment and working directory, and
  holds it, whether or not the child of an earlier entry is running.
\<close>

theorem one_live_child:
  "((c, w) \<in> reachable dumps loads \<longrightarrow> owns c w \<and> length (filter alive (procs w)) \<le> 1)
   \<and> (\<forall>pid. process c = Some pid \<and> running w pid \<longrightarrow> ensure_running c w = (Inr (), c, w))
   \<and> (\<forall>c' w'. \<not> (\<exists>pid. process c = Some pid \<and> running w pid)
          \<and> ensure_running c w = (Inr (), c', w') \<longrightarrow>
        (\<exists>p. procs w' = procs w @ [p] \<and> c' = c\<lparr>process := Some (length (procs w))\<rparr> \<and> alive p
             \<and> argv p = command c # args c \<and> penv p = os_environ w ++ env c
             \<and> (\<forall>k v. env c k = Some v \<longrightarrow> penv p k = Some v)
             \<and> (\<forall>k. env c k = None \<longrightarrow> penv p k = os_environ w k)
             \<and> cwd p = working_dir c))
   \<and> (\<forall>b. \<not> (\<exists>pid. process c = Some pid \<and> running w pid)
          \<and> program w (command c # args c) (os_environ w ++ env c) (working_dir c) = Some b \<longrightarrow>
        ensure_running c w =
          (Inr (), c\<lparr>process := Some (length (procs w))\<rparr>,
           w\<lparr>procs := procs w @
             [\<lparr>argv = command c # args c, penv = os_environ w ++ env c, cwd = working_dir c,
               alive = True, stdin_log = [], signals = [], beh = b\<rparr>]\<rparr>))
   \<and> (\<forall>b. program w (sr_command r # sr_args r) (os_environ w ++ sr_env r) (sr_working_dir r)
            = Some b \<longrightarrow>
        ServerRunner_run_enter r w =
          Some (Inr (length (procs w)), r\<lparr>sr_process := Some (length (procs w))\<rparr>,
                w\<lparr>procs := procs w @
                  [\<lparr>argv = sr_command r # sr_args r, penv = os_environ w ++ sr_env r,
                    cwd = sr_working_dir r, alive = True, stdin_log = [], signals = [],
                    beh = b\<rparr>]\<rparr>)
        \<and> (\<forall>k v. sr_env r k = Some v \<longrightarrow> (os_environ w ++ sr_env r) k = Some v)
        \<and> (\<forall>k. sr_env r k = None \<longrightarrow> (os_environ w ++ sr_env r) k = os_environ w k))"
proof (intro conjI allI impI)
  assume r: "(c, w) \<in> reachable dumps loads"
  then show o: "owns c w" by (rule reachable_owns)
  then show "length (filter alive (procs w)) \<le> 1" by (rule owns_one_live)
next
  fix pid
  assume "process c = Some pid \<and> running w pid"
  then have "process c = Some pid" and "running w pid" by simp_all
  then show "ensure_running c w = (Inr (), c, w)" by (rule ensure_running_live)
next
  fix c' w'
  assume h: "\<not> (\<exists>pid. process c = Some pid \<and> running w pid)
          \<and> ensure_running c w = (Inr (), c', w')"
  then have 1: "\<not> (\<exists>pid. process c = Some pid \<and> running w pid)"
    and 2: "ensure_running c w = (Inr (), c', w')" by simp_all
  from ensure_running_spawn[OF 1 2] obtain b where
    p: "procs w' = procs w @
              [\<lparr>argv = command c # args c, penv = os_environ w ++ env c, cwd = working_dir c,
                alive = True, stdin_log = [], signals = [], beh = b\<rparr>]"
    and c': "c' = c\<lparr>process := Some (length (procs w))\<rparr>" by (elim exE conjE)
  let ?p = "\<lparr>argv = command c # args c, penv = os_environ w ++ env c, cwd = working_dir c,
                alive = True, stdin_log = [], signals = [], beh = b\<rparr>"
  show "\<exists>p. procs w' = procs w @ [p] \<and> c' = c\<lparr>process := Some (length (procs w))\<rparr> \<and> alive p
             \<and> argv p = command c # args c \<and> penv p = os_environ w ++ env c
             \<and> (\<forall>k v. env c k = Some v \<longrightarrow> penv p k = Some v)
             \<and> (\<forall>k. env c k = None \<longrightarrow> penv p k = os_environ w k)
             \<and> cwd p = working_dir c"
    by (rule exI[of _ ?p]) (simp add: p c' map_add_def)
next
  fix b
  assume h: "\<not> (\<exists>pid. process c = Some pid \<and> running w pid)
          \<and> program w (command c # args c) (os_environ w ++ env c) (working_dir c) = Some b"
  then have "process c = None \<or> (\<exists>pid. process c = Some pid \<and> \<not> running w pid)"
    by (cases "process c") auto
  moreover from h
  have "program w (command c # args c) (os_environ w ++ env c) (working_dir c) = Some b"
    by simp
  ultimately show "ensure_running c w =
          (Inr (), c\<lparr>process := Some (length (procs w))\<rparr>,
           w\<lparr>procs := procs w @
             [\<lparr>argv = command c # args c, penv = os_environ w ++ env c, cwd = working_dir c,
               alive = True, stdin_log = [], signals = [], beh = b\<rparr>]\<rparr>)"
    by (rule ensure_running_dead)
next
  fix b
  assume "program w (sr_command r # sr_args r) (os_environ w ++ sr_env r) (sr_working_dir r)
            = Some b"
  then show "ServerRunner_run_enter r w =
          Some (Inr (length (procs w)), r\<lparr>sr_process := Some (length (procs w))\<rparr>,
                w\<lparr>procs := procs w @
                  [\<lparr>argv = sr_command r # sr_args r, penv = os_environ w ++ sr_env r,
                    cwd = sr_working_dir r, alive = True, stdin_log = [], signals = [],
                    beh = b\<rparr>]\<rparr>)"
    by (rule run_enter_always)
next
  fix b k v
  assume "sr_env r k = Some v"
  then show "(os_environ w ++ sr_env r) k = Some v" by (simp add: map_add_def)
next
  fix b k
  assume "sr_env r k = None"
  then show "(os_environ w ++ sr_env r) k = os_environ w k" by (simp add: map_add_def)
qed

lemma demo_reachable:
  "(demo_connection\<lparr>process := Some 0\<rparr>, demo_ensured) \<in> reachable demo_dumps demo_loads"
proof -
  have "(demo_connection, demo_world) \<in> reachable demo_dumps demo_loads"
    by (rule reachable.created) (simp_all add: demo_connection_def demo_world_def)
  then show ?thesis using demo_ensure by (rule reachable.ensured)
qed

theorem one_live_child_witness:
  "length (filter alive (procs demo_ensured)) \<le> 1
   \<and> ensure_running (demo_connection\<lparr>process := Some 0\<rparr>) demo_ensured
       = (Inr (), demo_connection\<lparr>process := Some 0\<rparr>, demo_ensured)
   \<and> ensure_running (demo_connection\<lparr>process := Some 0\<rparr>) demo_exited
       = (Inr (), demo_connection\<lparr>process := Some 1\<rparr>,
          demo_exited\<lparr>procs := procs demo_exited @
            [demo_child (demo_environ ++ [''MODE'' \<mapsto> ''test'']) demo_behaviour
               [''python'', ''server.py'']]\<rparr>)
   \<and> ServerRunner_run_enter demo_runner demo_world
       = Some (Inr 0, demo_runner\<lparr>sr_process := Some 0\<rparr>, demo_ensured)
   \<and> length (procs demo_ensured) = 1
   \<and> argv (procs demo_ensured ! 0) = [''python'', ''server.py'']
   \<and> penv (procs demo_ensured ! 0) ''MODE'' = Some ''test''
   \<and> penv (procs demo_ensured ! 0) ''PATH'' = Some ''/bin''"
proof -
  let ?c = "demo_connection\<lparr>process := Some 0\<rparr>"
  note t = one_live_child[of ?c demo_ensured demo_dumps demo_loads demo_runner]
  from t demo_reachable have a: "length (filter alive (procs demo_ensured)) \<le> 1" by simp
  have "process ?c = Some 0 \<and> running demo_ensured 0"
    by (simp add: running_def demo_ensured_def demo_child_def)
  with t have b: "ensure_running ?c demo_ensured = (Inr (), ?c, demo_ensured)" by blast
  note u = one_live_child[of ?c demo_exited demo_dumps demo_loads demo_runner,
      THEN conjunct2, THEN conjunct2, THEN conjunct2, THEN conjunct1, rule_format,
      of demo_behaviour]
  have "\<not> (\<exists>pid. process ?c = Some pid \<and> running demo_exited pid)
      \<and> program demo_exited (command ?c # args ?c) (os_environ demo_exited ++ env ?c)
          (working_dir ?c) = Some demo_behaviour"
    by (simp add: running_def demo_exited_def demo_child_def demo_connection_def
        demo_world_def demo_program_def)
  from u[OF this]
  have d: "ensure_running ?c demo_exited
       = (Inr (), demo_connection\<lparr>process := Some 1\<rparr>,
          demo_exited\<lparr>procs := procs demo_exited @
            [demo_child (demo_environ ++ [''MODE'' \<mapsto> ''test'']) demo_behaviour
               [''python'', ''server.py'']]\<rparr>)"
    by (simp add: demo_exited_def demo_child_def demo_connection_def demo_world_def)
  note v = one_live_child[of ?c demo_world demo_dumps demo_loads demo_runner,
      THEN conjunct2, THEN conjunct2, THEN conjunct2, THEN conjunct2, rule_format,
      of demo_behaviour, THEN conjunct1]
  have "program demo_world (sr_command demo_runner # sr_args demo_runner)
      (os_environ demo_world ++ sr_env demo_runner) (sr_working_dir demo_runner)
      = Some demo_behaviour"
    by (simp add: demo_runner_def demo_world_def demo_program_def)
  from v[OF this]
  have e: "ServerRunner_run_enter demo_runner demo_world
       = Some (Inr 0, demo_runner\<lparr>sr_process := Some 0\<rparr>, demo_ensured)"
    by (simp add: demo_runner_def demo_world_def demo_ensured_def demo_child_def)
  have c: "length (procs demo_ensured) = 1"
    "argv (procs demo_ensured ! 0) = [''python'', ''server.py'']"
    "penv (procs demo_ensured ! 0) ''MODE'' = Some ''test''"
    "penv (procs demo_ensured ! 0) ''PATH'' = Some ''/bin''"
    by (simp_all add: demo_ensured_def demo_child_def demo_environ_def)
  from a b c d e show ?thesis by simp
qed

text \<open>
  Claim C7 as stated fails for \<^verbatim>\<open>ServerRunner.run\<close>: entered a second time while the child of
  the first entry is running, it starts another child, and two children of the runner are
  running together.
\<close>

theorem run_twice_counterexample:
  "ServerRunner_run_enter demo_runner demo_world
     = Some (Inr 0, demo_runner\<lparr>sr_process := Some 0\<rparr>, demo_ensured)
   \<and> running demo_ensured 0
   \<and> ServerRunner_run_enter (demo_runner\<lparr>sr_process := Some 0\<rparr>) demo_ensured
     = Some (Inr 1, demo_runner\<lparr>sr_process := Some 1\<rparr>, demo_twice)
   \<and> running demo_twice 0 \<and> running demo_twice 1
   \<and> length (filter alive (procs demo_twice)) = 2"
  by (simp add: ServerRunner_run_enter_def Popen_def merged_env_def demo_runner_def
      demo_world_def demo_ensured_def demo_twice_def demo_child_def demo_program_def
      running_def)

lemma fresh_exchange:
  assumes "dumps request = Inr s"
    and n_def: "n = length (procs w)"
    and w1_def: "w1 = w\<lparr>procs := procs w @
           [\<lparr>argv = a, penv = e, cwd = d, alive = True, stdin_log = [], signals = [], beh = b\<rparr>]\<rparr>"
  shows "\<exists>w'. exchange dumps loads w1 n request = (loads (reply b [s @ [CHR 0x0A]]), w')
          \<and> length (procs w') = Suc n \<and> running w' n
          \<and> stdin_log (procs w' ! n) = [s @ [CHR 0x0A]]
          \<and> argv (procs w' ! n) = a \<and> penv (procs w' ! n) = e"
proof -
  have r: "running w1 n" by (simp add: running_def w1_def n_def)
  have p: "procs w1 ! n =
      \<lparr>argv = a, penv = e, cwd = d, alive = True, stdin_log = [], signals = [], beh = b\<rparr>"
    by (simp add: w1_def n_def)
  let ?w' = "update_proc w1 n (\<lambda>p. p\<lparr>stdin_log := stdin_log p @ [s @ [CHR 0x0A]]\<rparr>)"
  have x: "exchange dumps loads w1 n request = (loads (reply b [s @ [CHR 0x0A]]), ?w')"
    using exchange_running[where dumps = dumps and request = request and loads = loads, OF r assms(1)]
    by (simp add: p)
  have l: "length (procs ?w') = Suc n" by (simp add: procs_update_proc w1_def n_def)
  have q: "procs ?w' ! n = \<lparr>argv = a, penv = e, cwd = d, alive = True,
      stdin_log = [s @ [CHR 0x0A]], signals = [], beh = b\<rparr>"
    by (simp add: procs_update_proc w1_def n_def)
  have r': "running ?w' n" by (simp add: running_def l q)
  show ?thesis
    by (rule exI[of _ ?w']) (simp add: x l q r')
qed

text \<open>
  Claim C10.  When a connection has no child, or its child has exited, and the command can be
  started, \<^verbatim>\<open>call_tool\<close> and \<^verbatim>\<open>list_tools\<close> start a new child, hold it, send it the request as
  its first line and return what that child replies.
\<close>

theorem dead_channel_respawn:
  "(process c = None \<or> (\<exists>pid. process c = Some pid \<and> \<not> running w pid))
   \<and> program w (command c # args c) (os_environ w ++ env c) (working_dir c) = Some b
   \<longrightarrow>
     (\<forall>s. dumps (call_tool_request tool_name arguments) = Inr s \<longrightarrow>
        (\<exists>w'. StdioConnection_call_tool dumps loads c w tool_name arguments
                = (case loads (reply b [s @ [CHR 0x0A]]) of
                     Inl e \<Rightarrow> Inl e | Inr v \<Rightarrow> raise_on_error v,
                   c\<lparr>process := Some (length (procs w))\<rparr>, w')
            \<and> length (procs w') = Suc (length (procs w))
            \<and> running w' (length (procs w))
            \<and> stdin_log (procs w' ! length (procs w)) = [s @ [CHR 0x0A]]
            \<and> argv (procs w' ! length (procs w)) = command c # args c
            \<and> penv (procs w' ! length (procs w)) = os_environ w ++ env c))
     \<and> (\<forall>s. dumps list_tools_request = Inr s \<longrightarrow>
        (\<exists>w'. StdioConnection_list_tools dumps loads c w
                = (loads (reply b [s @ [CHR 0x0A]]),
                   c\<lparr>process := Some (length (procs w))\<rparr>, w')
            \<and> length (procs w') = Suc (length (procs w))
            \<and> running w' (length (procs w))
            \<and> stdin_log (procs w' ! length (procs w)) = [s @ [CHR 0x0A]]
            \<and> argv (procs w' ! length (procs w)) = command c # args c
            \<and> penv (procs w' ! length (procs w)) = os_environ w ++ env c))"
proof (intro impI conjI allI)
  fix s
  assume h: "(process c = None \<or> (\<exists>pid. process c = Some pid \<and> \<not> running w pid))
   \<and> program w (command c # args c) (os_environ w ++ env c) (working_dir c) = Some b"
    and d: "dumps (call_tool_request tool_name arguments) = Inr s"
  from h have e: "ensure_running c w =
     (Inr (), c\<lparr>process := Some (length (procs w))\<rparr>,
      w\<lparr>procs := procs w @
           [\<lparr>argv = command c # args c, penv = os_environ w ++ env c, cwd = working_dir c,
             alive = True, stdin_log = [], signals = [], beh = b\<rparr>]\<rparr>)"
    by (intro ensure_running_dead) simp_all
  from fresh_exchange[where dumps = dumps and request = "call_tool_request tool_name arguments"
      and loads = loads and w = w and a = "command c # args c" and e = "os_environ w ++ env c"
      and d = "working_dir c" and b = b, OF d refl refl]
  obtain w' where x: "exchange dumps loads (w\<lparr>procs := procs w @
           [\<lparr>argv = command c # args c, penv = os_environ w ++ env c, cwd = working_dir c,
             alive = True, stdin_log = [], signals = [], beh = b\<rparr>]\<rparr>) (length (procs w))
           (call_tool_request tool_name arguments) = (loads (reply b [s @ [CHR 0x0A]]), w')"
    and k: "length (procs w') = Suc (length (procs w))" "running w' (length (procs w))"
      "stdin_log (procs w' ! length (procs w)) = [s @ [CHR 0x0A]]"
      "argv (procs w' ! length (procs w)) = command c # args c"
      "penv (procs w' ! length (procs w)) = os_environ w ++ env c"
    by (elim exE conjE)
  have "StdioConnection_call_tool dumps loads c w tool_name arguments
                = (case loads (reply b [s @ [CHR 0x0A]]) of
                     Inl e \<Rightarrow> Inl e | Inr v \<Rightarrow> raise_on_error v,
                   c\<lparr>process := Some (length (procs w))\<rparr>, w')"
    by (simp add: StdioConnection_call_tool_def e x split: sum.split)
  with k show "\<exists>w'. StdioConnection_call_tool dumps loads c w tool_name arguments
                = (case loads (reply b [s @ [CHR 0x0A]]) of
                     Inl e \<Rightarrow> Inl e | Inr v \<Rightarrow> raise_on_error v,
                   c\<lparr>process := Some (length (procs w))\<rparr>, w')
            \<and> length (procs w') = Suc (length (procs w))
            \<and> running w' (length (procs w))
            \<and> stdin_log (procs w' ! length (procs w)) = [s @ [CHR 0x0A]]
            \<and> argv (procs w' ! length (procs w)) = command c # args c
            \<and> penv (procs w' ! length (procs w)) = os_environ w ++ env c"
    by (intro exI[of _ w']) simp
next
  fix s
  assume h: "(process c = None \<or> (\<exists>pid. process c = Some pid \<and> \<not> running w pid))
   \<and> program w (command c # args c) (os_environ w ++ env c) (working_dir c) = Some b"
    and d: "dumps list_tools_request = Inr s"
  from h have e: "ensure_running c w =
     (Inr (), c\<lparr>process := Some (length (procs w))\<rparr>,
      w\<lparr>procs := procs w @
           [\<lparr>argv = command c # args c, penv = os_environ w ++ env c, cwd = working_dir c,
             alive = True, stdin_log = [], signals = [], beh = b\<rparr>]\<rparr>)"
    by (intro ensure_running_dead) simp_all
  from fresh_exchange[where dumps = dumps and request = list_tools_request
      and loads = loads and w = w and a = "command c # args c" and e = "os_environ w ++ env c"
      and d = "working_dir c" and b = b, OF d refl refl]
  obtain w' where x: "exchange dumps loads (w\<lparr>procs := procs w @
           [\<lparr>argv = command c # args c, penv = os_environ w ++ env c, cwd = working_dir c,
             alive = True, stdin_log = [], signals = [], beh = b\<rparr>]\<rparr>) (length (procs w))
           list_tools_request = (loads (reply b [s @ [CHR 0x0A]]), w')"
    and k: "length (procs w') = Suc (length (procs w))" "running w' (length (procs w))"
      "stdin_log (procs w' ! length (procs w)) = [s @ [CHR 0x0A]]"
      "argv (procs w' ! length (procs w)) = command c # args c"
      "penv (procs w' ! length (procs w)) = os_environ w ++ env c"
    by (elim exE conjE)
  have "StdioConnection_list_tools dumps loads c w
                = (loads (reply b [s @ [CHR 0x0A]]),
                   c\<lparr>process := Some (length (procs w))\<rparr>, w')"
    by (simp add: StdioConnection_list_tools_def e x)
  with k show "\<exists>w'. StdioConnection_list_tools dumps loads c w
                = (loads (reply b [s @ [CHR 0x0A]]),
                   c\<lparr>process := Some (length (procs w))\<rparr>, w')
            \<and> length (procs w') = Suc (length (procs w))
            \<and> running w' (length (procs w))
            \<and> stdin_log (procs w' ! length (procs w)) = [s @ [CHR 0x0A]]
            \<and> argv (procs w' ! length (procs w)) = command c # args c
            \<and> penv (procs w' ! length (procs w)) = os_environ w ++ env c"
    by (intro exI[of _ w']) simp
qed

theorem dead_channel_respawn_witness:
  "(case StdioConnection_list_tools demo_dumps demo_loads (demo_connection\<lparr>process := Some 0\<rparr>)
           demo_exited of
      (r, c', w') \<Rightarrow> (r, process c', length (procs w'), running w' 1, stdin_log (procs w' ! 1)))
   = (Inr (JObj [(''error'', JStr ''bad args'')]), Some 1, 2, True, [''request'' @ [CHR 0x0A]])"
proof -
  let ?c = "demo_connection\<lparr>process := Some 0\<rparr>"
  have h: "(process ?c = None \<or> (\<exists>pid. process ?c = Some pid \<and> \<not> running demo_exited pid))
     \<and> program demo_exited (command ?c # args ?c) (os_environ demo_exited ++ env ?c) (working_dir ?c)
         = Some demo_behaviour"
    by (simp add: running_def demo_exited_def demo_child_def demo_world_def demo_program_def
        demo_connection_def)
  have d: "demo_dumps list_tools_request = Inr ''request''" by (simp add: demo_dumps_def)
  have l: "length (procs demo_exited) = 1" by (simp add: demo_exited_def)
  from dead_channel_respawn[where c = ?c and w = demo_exited and b = demo_behaviour
      and dumps = demo_dumps and loads = demo_loads] h d
  obtain w' where
    "StdioConnection_list_tools demo_dumps demo_loads ?c demo_exited
       = (demo_loads (reply demo_behaviour [''request'' @ [CHR 0x0A]]),
          ?c\<lparr>process := Some (length (procs demo_exited))\<rparr>, w')"
    "length (procs w') = Suc (length (procs demo_exited))"
    "running w' (length (procs demo_exited))"
    "stdin_log (procs w' ! length (procs demo_exited)) = [''request'' @ [CHR 0x0A]]"
    by blast
  then show ?thesis
    by (simp add: l demo_loads_def demo_behaviour_def)
qed


end
